theory Spec2Isabelle
  imports Main "HOL-Library.Sublist"
begin

section \<open>Strings\<close>

text \<open>
  A JavaScript string is modelled as the list of its code points (what iterating the string
  yields), each code point a natural number. All patterns of \<^verbatim>\<open>slugify.ts\<close> either carry
  the \<^verbatim>\<open>u\<close> flag or are character classes that treat the two halves of a surrogate pair
  alike, so nothing in the pipeline distinguishes code points from UTF-16 code units except
  \<^verbatim>\<open>String.prototype.length\<close>, which is \<open>js_length\<close> below.
\<close>

type_synonym jstring = "nat list"

definition str :: "string \<Rightarrow> jstring" where
  "str s = map of_char s"

definition js_length :: "jstring \<Rightarrow> nat" where
  "js_length s = sum_list (map (\<lambda>c. if 65536 \<le> c then 2 else 1) s)"

text \<open>\<^verbatim>\<open>Array.prototype.join\<close> on an array of strings.\<close>

fun join :: "jstring \<Rightarrow> jstring list \<Rightarrow> jstring" where
  "join sep [] = []"
| "join sep [w] = w"
| "join sep (w # v # ws) = w @ sep @ join sep (v # ws)"

text \<open>
  \<^verbatim>\<open>String.prototype.trim\<close>: removes leading and trailing WhiteSpace and LineTerminator
  code points (ECMA-262: TAB, LF, VT, FF, CR, SP, NBSP, the Zs category, LS, PS, ZWNBSP).
\<close>

definition is_white_space :: "nat \<Rightarrow> bool" where
  "is_white_space c \<longleftrightarrow>
     c \<in> set [9, 10, 11, 12, 13, 32, 160, 5760, 8232, 8233, 8239, 8287, 12288, 65279]
     \<or> (8192 \<le> c \<and> c \<le> 8202)"

definition trim :: "jstring \<Rightarrow> jstring" where
  "trim s = rev (dropWhile is_white_space (rev (dropWhile is_white_space s)))"

section \<open>Errors\<close>

text \<open>
  \<open>TypeError\<close> is what \<^verbatim>\<open>String.prototype.replaceAll\<close> throws for a pattern without the
  \<^verbatim>\<open>g\<close> flag, and what calling a missing method throws. \<open>SyntaxError\<close> is what
  \<^verbatim>\<open>new RegExp\<close> throws for a source text that is not a pattern.
\<close>

datatype error = TypeError | SyntaxError

definition bind_err :: "error + 'a \<Rightarrow> ('a \<Rightarrow> error + 'b) \<Rightarrow> error + 'b" where
  "bind_err x f = (case x of Inl e \<Rightarrow> Inl e | Inr v \<Rightarrow> f v)"

fun sequence_err :: "(error + 'a) list \<Rightarrow> error + 'a list" where
  "sequence_err [] = Inr []"
| "sequence_err (x # xs) =
     (case x of Inl e \<Rightarrow> Inl e
      | Inr v \<Rightarrow> (case sequence_err xs of Inl e \<Rightarrow> Inl e | Inr vs \<Rightarrow> Inr (v # vs)))"

section \<open>Regular expressions\<close>

text \<open>
  A \<^verbatim>\<open>RegExp\<close> object is its \<^verbatim>\<open>g\<close> and \<^verbatim>\<open>y\<close> flags and its matcher: \<open>re_exec r seen rest\<close>
  is the length of the match that starts exactly between \<open>seen\<close> and \<open>rest\<close>, if there is
  one (\<open>seen\<close> is there for anchors and look-behind).
\<close>

record regexp =
  re_global :: bool
  re_sticky :: bool
  re_exec :: "jstring \<Rightarrow> jstring \<Rightarrow> nat option"

section \<open>The host environment\<close>

text \<open>
  \<^verbatim>\<open>slugify.ts\<close> and \<^verbatim>\<open>build.ts\<close> call into the JavaScript engine for Unicode
  normalisation (\<^verbatim>\<open>normalize("NFD")\<close>, \<^verbatim>\<open>normalize("NFC")\<close>), lower-casing, word segmentation
  (\<^verbatim>\<open>Intl.Segmenter("en-US", {granularity: "word"})\<close>, whose segments carry the flag
  \<^verbatim>\<open>isWordLike\<close>), the Unicode general categories behind \<^verbatim>\<open>\p{L}\<close>, \<^verbatim>\<open>\p{M}\<close> and \<^verbatim>\<open>\p{N}\<close>,
  locale-aware comparison (\<^verbatim>\<open>localeCompare(b, "en-US")\<close>), and the compilation of a pattern
  from a source text put together at run time (\<^verbatim>\<open>new RegExp(source, "gu")\<close>, which throws a
  \<^verbatim>\<open>SyntaxError\<close> for a text that is not a pattern). None of these is code of the
  repository; they are the fields of an environment that every operation takes as a
  parameter.
\<close>

record env =
  nfd :: "jstring \<Rightarrow> jstring"
  nfc :: "jstring \<Rightarrow> jstring"
  toLowerCase :: "jstring \<Rightarrow> jstring"
  segment :: "jstring \<Rightarrow> (bool \<times> jstring) list"
  isL :: "nat \<Rightarrow> bool"
  isM :: "nat \<Rightarrow> bool"
  isN :: "nat \<Rightarrow> bool"
  localeCompare :: "jstring \<Rightarrow> jstring \<Rightarrow> int"
  regexp_gu :: "jstring \<Rightarrow> error + regexp"

section \<open>\<^verbatim>\<open>replaceAll\<close>\<close>

text \<open>
  The loop of \<^verbatim>\<open>RegExp.prototype[Symbol.replace]\<close> for a global pattern: matches are taken
  left to right and do not overlap; text between matches is copied; after an empty match
  the next search starts one code point further; a sticky pattern stops at the first
  position where it fails.
\<close>

function replace_from ::
  "regexp \<Rightarrow> (jstring \<Rightarrow> jstring) \<Rightarrow> jstring \<Rightarrow> jstring \<Rightarrow> jstring" where
  "replace_from re f seen rest =
     (case re_exec re seen rest of
        None \<Rightarrow>
          (if re_sticky re then rest
           else (case rest of [] \<Rightarrow> []
                 | c # cs \<Rightarrow> c # replace_from re f (seen @ [c]) cs))
      | Some n \<Rightarrow>
          (if min n (length rest) = 0
           then f [] @ (case rest of [] \<Rightarrow> []
                        | c # cs \<Rightarrow> c # replace_from re f (seen @ [c]) cs)
           else f (take n rest)
                @ replace_from re f (seen @ take n rest) (drop n rest)))"
  by pat_completeness auto
termination
  by (relation "measure (\<lambda>(re, f, seen, rest). length rest)") auto

declare replace_from.simps [simp del]

definition replaceAll :: "regexp \<Rightarrow> (jstring \<Rightarrow> jstring) \<Rightarrow> jstring \<Rightarrow> error + jstring" where
  "replaceAll re f s =
     (if re_global re then Inr (replace_from re f [] s) else Inl TypeError)"

section \<open>The patterns of \<^verbatim>\<open>slugify.ts\<close>\<close>

definition word_char :: "env \<Rightarrow> nat \<Rightarrow> bool" where
  "word_char E c \<longleftrightarrow> isL E c \<or> isM E c \<or> isN E c \<or> c = 45"

definition ascii_letter :: "nat \<Rightarrow> bool" where
  "ascii_letter c \<longleftrightarrow> (97 \<le> c \<and> c \<le> 122) \<or> (65 \<le> c \<and> c \<le> 90)"

definition ascii_word_char :: "nat \<Rightarrow> bool" where
  "ascii_word_char c \<longleftrightarrow> (48 \<le> c \<and> c \<le> 57) \<or> ascii_letter c \<or> c = 45"

definition run_length :: "(nat \<Rightarrow> bool) \<Rightarrow> jstring \<Rightarrow> nat option" where
  "run_length p rest =
     (let n = length (takeWhile p rest) in if n = 0 then None else Some n)"

text \<open>\<^verbatim>\<open>/[^\p{L}\p{M}\p{N}\-]+/gu\<close>\<close>

definition NON_WORD :: "env \<Rightarrow> regexp" where
  "NON_WORD E = \<lparr>re_global = True, re_sticky = False,
     re_exec = (\<lambda>seen rest. run_length (\<lambda>c. \<not> word_char E c) rest)\<rparr>"

text \<open>\<^verbatim>\<open>/[^\p{L}\p{N}\-]+/gu\<close>\<close>

definition DIACRITICS :: "env \<Rightarrow> regexp" where
  "DIACRITICS E = \<lparr>re_global = True, re_sticky = False,
     re_exec = (\<lambda>seen rest. run_length (\<lambda>c. \<not> (isL E c \<or> isN E c \<or> c = 45)) rest)\<rparr>"

text \<open>\<^verbatim>\<open>/(?<=[a-zA-Z])\p{M}+|[^\p{L}\p{M}\p{N}\-]+/gu\<close>\<close>

definition ASCII_DIACRITICS :: "env \<Rightarrow> regexp" where
  "ASCII_DIACRITICS E = \<lparr>re_global = True, re_sticky = False,
     re_exec = (\<lambda>seen rest.
       (case (if seen \<noteq> [] \<and> ascii_letter (last seen)
              then run_length (isM E) rest else None) of
          Some n \<Rightarrow> Some n
        | None \<Rightarrow> run_length (\<lambda>c. \<not> word_char E c) rest))\<rparr>"

text \<open>\<^verbatim>\<open>/[^0-9a-zA-Z\-]/g\<close>\<close>

definition NON_ASCII :: regexp where
  "NON_ASCII = \<lparr>re_global = True, re_sticky = False,
     re_exec = (\<lambda>seen rest.
       (case rest of [] \<Rightarrow> None
        | c # cs \<Rightarrow> if ascii_word_char c then None else Some 1))\<rparr>"

text \<open>\<^verbatim>\<open>/[^\s\S]/gu\<close>, which matches nothing.\<close>

definition MATCH_NOTHING :: regexp where
  "MATCH_NOTHING = \<lparr>re_global = True, re_sticky = False,
     re_exec = (\<lambda>seen rest. None)\<rparr>"

text \<open>\<^verbatim>\<open>/-{2,}/g\<close>\<close>

definition HYPHEN_RUN :: regexp where
  "HYPHEN_RUN = \<lparr>re_global = True, re_sticky = False,
     re_exec = (\<lambda>seen rest.
       (let n = length (takeWhile (\<lambda>c. c = 45) rest) in if 2 \<le> n then Some n else None))\<rparr>"

text \<open>\<^verbatim>\<open>/^-|-$/g\<close>\<close>

definition EDGE_HYPHEN :: regexp where
  "EDGE_HYPHEN = \<lparr>re_global = True, re_sticky = False,
     re_exec = (\<lambda>seen rest.
       (if seen = [] \<and> rest \<noteq> [] \<and> hd rest = 45 then Some 1
        else if rest = [45] then Some 1
        else None))\<rparr>"

section \<open>The compiled transliteration pattern\<close>

text \<open>
  \<^verbatim>\<open>[...charMap.keys()].sort((a, b) => b.length - a.length)\<close>: a stable sort by descending
  length in UTF-16 code units.
\<close>

definition sort_keys :: "jstring list \<Rightarrow> jstring list" where
  "sort_keys ks = sort_key (\<lambda>k. - int (js_length k)) ks"

text \<open>
  The source text of the pattern (\<^verbatim>\<open>slugify.ts\<close>, line 36): the sorted keys, as they are,
  joined by \<^verbatim>\<open>|\<close> inside \<^verbatim>\<open>(?:\<close> and \<^verbatim>\<open>)\<close>.
\<close>

definition pattern_source :: "jstring list \<Rightarrow> jstring" where
  "pattern_source ks = str ''(?:'' @ join (str ''|'') (sort_keys ks) @ str '')''"

text \<open>
  A \<^verbatim>\<open>Map<string, string>\<close> is passed as its identity together with its entries at the
  time of the call, in insertion order. The \<^verbatim>\<open>WeakMap\<close> cache is keyed by identity.
  \<open>getTransliterationRe\<close> (\<^verbatim>\<open>slugify.ts\<close>, lines 24 to 42) returns the pattern and the
  cache it leaves behind; an empty map is answered without touching the cache, and a
  source text that the engine rejects leaves the cache as it was.
\<close>

type_synonym char_map = "(jstring \<times> jstring) list"
type_synonym map_ref = nat
type_synonym re_cache = "map_ref \<rightharpoonup> regexp"

definition getTransliterationRe ::
  "env \<Rightarrow> re_cache \<Rightarrow> map_ref \<Rightarrow> char_map \<Rightarrow> (error + regexp) \<times> re_cache" where
  "getTransliterationRe E cache r cm =
     (case cache r of
        Some re \<Rightarrow> (Inr re, cache)
      | None \<Rightarrow>
          if length cm = 0 then (Inr MATCH_NOTHING, cache)
          else (case regexp_gu E (pattern_source (map fst cm)) of
                  Inl e \<Rightarrow> (Inl e, cache)
                | Inr re \<Rightarrow> (Inr re, cache(r \<mapsto> re))))"

text \<open>
  The syntax characters of a pattern: \<^verbatim>\<open>^ $ \ . * + ? ( ) [ ] { } |\<close>. A key without
  any of them stands for itself in the source text of a pattern.
\<close>

definition syntax_char :: "nat \<Rightarrow> bool" where
  "syntax_char c \<longleftrightarrow> c \<in> set [94, 36, 92, 46, 42, 43, 63, 40, 41, 91, 93, 123, 125, 124]"

definition literal_key :: "jstring \<Rightarrow> bool" where
  "literal_key k = list_all (\<lambda>c. \<not> syntax_char c) k"

text \<open>
  The pattern that matches the strings \<open>ks\<close> themselves, as \<^verbatim>\<open>(?:k1|k2|...)\<close> with the flags
  \<^verbatim>\<open>gu\<close> does when every key is escaped: at a position the alternatives are tried in the
  order written, and the first that is found there is the match.
\<close>

definition alternation :: "jstring list \<Rightarrow> regexp" where
  "alternation ks = \<lparr>re_global = True, re_sticky = False,
     re_exec = (\<lambda>seen rest. map_option length (find (\<lambda>k. prefix k rest) ks))\<rparr>"

section \<open>\<^verbatim>\<open>slugify\<close>\<close>

text \<open>
  \<^verbatim>\<open>slugify.ts\<close>, lines 134 to 175, with \<open>convertWord\<close> of lines 52 to 56. Both options may
  be absent.
\<close>

record slugify_options =
  charMap :: "(map_ref \<times> char_map) option"
  strip :: "regexp option"

definition no_options :: slugify_options where
  "no_options = \<lparr>charMap = None, strip = None\<rparr>"

datatype transliteration_config = Transliterate char_map regexp | NoTransliterate

definition map_get_or :: "char_map \<Rightarrow> jstring \<Rightarrow> jstring" where
  "map_get_or cm m = (case map_of cm m of Some v \<Rightarrow> v | None \<Rightarrow> m)"

definition convertWord :: "jstring \<Rightarrow> transliteration_config \<Rightarrow> error + jstring" where
  "convertWord word config =
     (case config of
        Transliterate cm re \<Rightarrow> replaceAll re (map_get_or cm) word
      | NoTransliterate \<Rightarrow> Inr word)"

text \<open>The loop over the segments: word-like segments are kept, every other non-empty
  segment becomes a hyphen.\<close>

fun words_of :: "(bool \<times> jstring) list \<Rightarrow> jstring list" where
  "words_of [] = []"
| "words_of ((isWordLike, seg) # ss) =
     (if isWordLike then seg # words_of ss
      else if length seg \<noteq> 0 then [45] # words_of ss
      else words_of ss)"

definition active_strip :: "env \<Rightarrow> transliteration_config \<Rightarrow> regexp option \<Rightarrow> regexp" where
  "active_strip E config strip_opt =
     (case strip_opt of
        Some r \<Rightarrow> r
      | None \<Rightarrow> (case config of Transliterate cm re \<Rightarrow> NON_ASCII | NoTransliterate \<Rightarrow> NON_WORD E))"

definition separator :: "transliteration_config \<Rightarrow> jstring" where
  "separator config = (case config of Transliterate cm re \<Rightarrow> [45] | NoTransliterate \<Rightarrow> [])"

text \<open>The chain up to and including the strip stage.\<close>

definition survivors :: "env \<Rightarrow> transliteration_config \<Rightarrow> regexp option \<Rightarrow> jstring \<Rightarrow> error + jstring" where
  "survivors E config strip_opt input =
     (let stripRe = active_strip E config strip_opt;
          words = words_of (segment E (toLowerCase E (nfd E (trim input))))
      in bind_err (sequence_err (map (\<lambda>word. convertWord word config) words)) (\<lambda>ws.
         replaceAll stripRe (\<lambda>m. []) (join (separator config) ws)))"

text \<open>The chain up to and including the removal of the edge hyphens.\<close>

definition stages :: "env \<Rightarrow> transliteration_config \<Rightarrow> regexp option \<Rightarrow> jstring \<Rightarrow> error + jstring" where
  "stages E config strip_opt input =
     bind_err (survivors E config strip_opt input) (\<lambda>stripped.
     bind_err (replaceAll HYPHEN_RUN (\<lambda>m. [45]) (nfc E stripped)) (\<lambda>collapsed.
     replaceAll EDGE_HYPHEN (\<lambda>m. []) collapsed))"

text \<open>\<^verbatim>\<open>... || "-"\<close>: the empty string is falsy.\<close>

definition slugify_core :: "env \<Rightarrow> transliteration_config \<Rightarrow> regexp option \<Rightarrow> jstring \<Rightarrow> error + jstring" where
  "slugify_core E config strip_opt input =
     bind_err (stages E config strip_opt input) (\<lambda>t. Inr (if t = [] then [45] else t))"

text \<open>The \<^verbatim>\<open>config\<close> constant: a map, even an empty one, is truthy.\<close>

definition config_of ::
  "env \<Rightarrow> re_cache \<Rightarrow> slugify_options \<Rightarrow> (error + transliteration_config) \<times> re_cache" where
  "config_of E cache options =
     (case charMap options of
        None \<Rightarrow> (Inr NoTransliterate, cache)
      | Some (r, cm) \<Rightarrow>
          (case getTransliterationRe E cache r cm of
             (Inl e, cache') \<Rightarrow> (Inl e, cache')
           | (Inr re, cache') \<Rightarrow> (Inr (Transliterate cm re), cache')))"

definition slugify ::
  "env \<Rightarrow> re_cache \<Rightarrow> jstring \<Rightarrow> slugify_options \<Rightarrow> (error + jstring) \<times> re_cache" where
  "slugify E cache input options =
     (case config_of E cache options of
        (Inl e, cache') \<Rightarrow> (Inl e, cache')
      | (Inr config, cache') \<Rightarrow> (slugify_core E config (strip options) input, cache'))"

section \<open>A sample environment\<close>

text \<open>
  A small environment on which the definitions can be run. It is not the engine: it is
  written so that the calls evaluated in this theory give what the engine gives for them,
  and it is simple everywhere else.

  \<^item> Its letters are the ASCII letters, U+00E0, U+00E9, U+03AE and the lower-case Greek
    letters; its marks are U+0300 to U+036F; its numbers are the ASCII digits.
  \<^item> Its normaliser knows three canonical pairs only (U+00E0, U+00E9 and U+03AE with
    their decompositions) and never reorders marks.
  \<^item> Its lower-casing changes the ASCII capitals only.
  \<^item> Its segmenter keeps runs of letters, digits and underscores together with the marks
    that follow them (a lone underscore is not word-like), puts marks at the start of the
    text into a segment of their own, keeps runs of spaces together, and isolates every
    other character. It has none of the rules that keep an apostrophe, a full stop or a
    comma inside a word or a number.
  \<^item> Its comparison is the comparison of code points. The \<^verbatim>\<open>en-US\<close> collation orders
    the strings compared in this theory the same way, and many others differently.
  \<^item> Its pattern compiler reads a source text \<^verbatim>\<open>(?:...)\<close> whose body holds no syntax
    character other than \<^verbatim>\<open>|\<close> and \<^verbatim>\<open>.\<close>: the alternatives are tried in the order written,
    a dot matches every code point that is not a line terminator, every other character
    matches itself. It answers every other text with a \<^verbatim>\<open>SyntaxError\<close>, as the engine does
    for an unterminated group.
\<close>

definition sample_isL :: "nat \<Rightarrow> bool" where
  "sample_isL c \<longleftrightarrow> ascii_letter c \<or> c = 224 \<or> c = 233 \<or> c = 942 \<or> (945 \<le> c \<and> c \<le> 969)"

definition sample_isM :: "nat \<Rightarrow> bool" where
  "sample_isM c \<longleftrightarrow> 768 \<le> c \<and> c \<le> 879"

definition sample_isN :: "nat \<Rightarrow> bool" where
  "sample_isN c \<longleftrightarrow> 48 \<le> c \<and> c \<le> 57"

fun sample_nfd :: "jstring \<Rightarrow> jstring" where
  "sample_nfd [] = []"
| "sample_nfd (c # cs) =
     (if c = 224 then [97, 768] else if c = 233 then [101, 769]
      else if c = 942 then [951, 769] else [c]) @ sample_nfd cs"

fun sample_nfc :: "jstring \<Rightarrow> jstring" where
  "sample_nfc (a # b # cs) =
     (if a = 97 \<and> b = 768 then 224 # sample_nfc cs
      else if a = 101 \<and> b = 769 then 233 # sample_nfc cs
      else if a = 951 \<and> b = 769 then 942 # sample_nfc cs
      else a # sample_nfc (b # cs))"
| "sample_nfc cs = cs"

definition sample_lower :: "jstring \<Rightarrow> jstring" where
  "sample_lower s = map (\<lambda>c. if 65 \<le> c \<and> c \<le> 90 then c + 32 else c) s"

datatype seg_kind = KWord bool | KMarks | KSpace | KOther

definition seg_start :: "nat \<Rightarrow> seg_kind" where
  "seg_start c =
     (if sample_isL c \<or> sample_isN c then KWord True
      else if c = 95 then KWord False
      else if sample_isM c then KMarks
      else if c = 32 then KSpace
      else KOther)"

fun seg_continue :: "seg_kind \<Rightarrow> nat \<Rightarrow> seg_kind option" where
  "seg_continue (KWord w) c =
     (if sample_isL c \<or> sample_isN c \<or> c = 95 then Some (KWord True)
      else if sample_isM c then Some (KWord w)
      else None)"
| "seg_continue KMarks c = (if sample_isM c then Some KMarks else None)"
| "seg_continue KSpace c =
     (if c = 32 then Some KSpace else if sample_isM c then Some KOther else None)"
| "seg_continue KOther c = (if sample_isM c then Some KOther else None)"

fun seg_word_like :: "seg_kind \<Rightarrow> bool" where
  "seg_word_like (KWord w) = w"
| "seg_word_like k = False"

fun seg_scan :: "jstring \<Rightarrow> seg_kind \<Rightarrow> jstring \<Rightarrow> (bool \<times> jstring) list" where
  "seg_scan [] k cur = [(seg_word_like k, cur)]"
| "seg_scan (c # cs) k cur =
     (case seg_continue k c of
        Some k' \<Rightarrow> seg_scan cs k' (cur @ [c])
      | None \<Rightarrow> (seg_word_like k, cur) # seg_scan cs (seg_start c) [c])"

definition sample_segment :: "jstring \<Rightarrow> (bool \<times> jstring) list" where
  "sample_segment s = (case s of [] \<Rightarrow> [] | c # cs \<Rightarrow> seg_scan cs (seg_start c) [c])"

fun compare_code_points :: "jstring \<Rightarrow> jstring \<Rightarrow> int" where
  "compare_code_points [] [] = 0"
| "compare_code_points [] (b # bs) = - 1"
| "compare_code_points (a # as) [] = 1"
| "compare_code_points (a # as) (b # bs) =
     (if a < b then - 1 else if b < a then 1 else compare_code_points as bs)"

definition line_terminator :: "nat \<Rightarrow> bool" where
  "line_terminator c \<longleftrightarrow> c \<in> set [10, 13, 8232, 8233]"

fun alternative_matches :: "jstring \<Rightarrow> jstring \<Rightarrow> bool" where
  "alternative_matches [] rest = True"
| "alternative_matches (p # ps) [] = False"
| "alternative_matches (p # ps) (c # cs) =
     ((if p = 46 then \<not> line_terminator c else p = c) \<and> alternative_matches ps cs)"

fun split_bar :: "jstring \<Rightarrow> jstring list" where
  "split_bar [] = [[]]"
| "split_bar (c # cs) =
     (if c = 124 then [] # split_bar cs
      else (case split_bar cs of [] \<Rightarrow> [[c]] | w # ws \<Rightarrow> (c # w) # ws))"

definition sample_regexp :: "jstring \<Rightarrow> error + regexp" where
  "sample_regexp src =
     (let body = take (length src - 4) (drop 3 src)
      in if src = str ''(?:'' @ body @ str '')''
            \<and> list_all (\<lambda>c. \<not> syntax_char c \<or> c = 46 \<or> c = 124) body
         then Inr \<lparr>re_global = True, re_sticky = False,
                   re_exec = (\<lambda>seen rest.
                     map_option length (find (\<lambda>k. alternative_matches k rest) (split_bar body)))\<rparr>
         else Inl SyntaxError)"

definition sample_env :: env where
  "sample_env = \<lparr>nfd = sample_nfd, nfc = sample_nfc,
     toLowerCase = sample_lower, segment = sample_segment,
     isL = sample_isL, isM = sample_isM, isN = sample_isN,
     localeCompare = compare_code_points, regexp_gu = sample_regexp\<rparr>"

section \<open>The shape of a slug\<close>

fun no_double_hyphen :: "jstring \<Rightarrow> bool" where
  "no_double_hyphen [] = True"
| "no_double_hyphen [c] = True"
| "no_double_hyphen (a # b # cs) = (\<not> (a = 45 \<and> b = 45) \<and> no_double_hyphen (b # cs))"

definition starts_hyphen :: "jstring \<Rightarrow> bool" where
  "starts_hyphen s \<longleftrightarrow> s \<noteq> [] \<and> hd s = 45"

definition ends_hyphen :: "jstring \<Rightarrow> bool" where
  "ends_hyphen s \<longleftrightarrow> s \<noteq> [] \<and> last s = 45"

text \<open>What \<^verbatim>\<open>replaceAll(/^-|-$/g, "")\<close> computes (\<open>edge_all\<close> below).\<close>

definition strip_edges :: "jstring \<Rightarrow> jstring" where
  "strip_edges s =
     (let s1 = (if starts_hyphen s then tl s else s)
      in if ends_hyphen s1 then butlast s1 else s1)"

text \<open>\<^verbatim>\<open>^[a-z0-9-]+$\<close>\<close>

definition slug_char :: "nat \<Rightarrow> bool" where
  "slug_char c \<longleftrightarrow> (97 \<le> c \<and> c \<le> 122) \<or> (48 \<le> c \<and> c \<le> 57) \<or> c = 45"

definition ascii_slug :: "jstring \<Rightarrow> bool" where
  "ascii_slug s \<longleftrightarrow> s \<noteq> [] \<and> list_all slug_char s"

section \<open>The table compiler (\<^verbatim>\<open>build.ts\<close>) and the loader (\<^verbatim>\<open>slugify_char_map.ts\<close>)\<close>

subsection \<open>Maps, objects and sorting\<close>

text \<open>
  \<^verbatim>\<open>Map.prototype.set\<close>: a new key goes to the end, an existing key keeps its place.
  \<^verbatim>\<open>Map.prototype.get\<close> is \<open>map_of\<close>.
\<close>

fun map_set :: "('k \<times> 'v) list \<Rightarrow> 'k \<Rightarrow> 'v \<Rightarrow> ('k \<times> 'v) list" where
  "map_set [] k v = [(k, v)]"
| "map_set ((k', v') # m) k v = (if k' = k then (k, v) # m else (k', v') # map_set m k v)"

text \<open>
  \<^verbatim>\<open>Array.prototype.sort\<close> with a comparator is stable. For a comparator that is a total
  preorder its result is the one stable sorted arrangement, which insertion computes.
\<close>

fun insert_by :: "('a \<Rightarrow> 'a \<Rightarrow> int) \<Rightarrow> 'a \<Rightarrow> 'a list \<Rightarrow> 'a list" where
  "insert_by cmp x [] = [x]"
| "insert_by cmp x (y # ys) = (if cmp x y \<le> 0 then x # y # ys else y # insert_by cmp x ys)"

definition js_sort :: "('a \<Rightarrow> 'a \<Rightarrow> int) \<Rightarrow> 'a list \<Rightarrow> 'a list" where
  "js_sort cmp xs = foldr (insert_by cmp) xs []"

definition sortAlphabetical :: "env \<Rightarrow> jstring \<Rightarrow> jstring \<Rightarrow> int" where
  "sortAlphabetical E a b = localeCompare E a b"

text \<open>\<^verbatim>\<open>[...new Set(xs)]\<close>: the first occurrence of every element, in order.\<close>

definition dedupe :: "'a list \<Rightarrow> 'a list" where
  "dedupe xs = rev (remdups (rev xs))"

text \<open>\<^verbatim>\<open>String.prototype.split(",")\<close>\<close>

fun split_comma :: "jstring \<Rightarrow> jstring list" where
  "split_comma [] = [[]]"
| "split_comma (c # cs) =
     (if c = 44 then [] # split_comma cs
      else (case split_comma cs of [] \<Rightarrow> [[c]] | w # ws \<Rightarrow> (c # w) # ws))"

text \<open>
  An ordinary object is the list of its own properties in the order in which
  \<^verbatim>\<open>Object.entries\<close> and \<^verbatim>\<open>JSON.stringify\<close> enumerate them: first the keys that are array
  indices (canonical decimal numerals up to \<open>2\<^sup>3\<^sup>2 - 2\<close>) in ascending numeric order, then
  the other keys in the order of their creation.
\<close>

type_synonym 'v js_object = "(jstring \<times> 'v) list"

definition is_digit :: "nat \<Rightarrow> bool" where
  "is_digit c \<longleftrightarrow> 48 \<le> c \<and> c \<le> 57"

definition digits_value :: "jstring \<Rightarrow> nat" where
  "digits_value k = foldl (\<lambda>n c. 10 * n + (c - 48)) 0 k"

definition array_index :: "jstring \<Rightarrow> nat option" where
  "array_index k =
     (if k \<noteq> [] \<and> list_all is_digit k \<and> (length k = 1 \<or> hd k \<noteq> 48)
         \<and> digits_value k < 4294967295
      then Some (digits_value k) else None)"

fun obj_insert_index :: "nat \<Rightarrow> jstring \<Rightarrow> 'v \<Rightarrow> 'v js_object \<Rightarrow> 'v js_object" where
  "obj_insert_index n k v [] = [(k, v)]"
| "obj_insert_index n k v ((k', v') # ob) =
     (case array_index k' of
        Some n' \<Rightarrow> if n' < n then (k', v') # obj_insert_index n k v ob
                   else (k, v) # (k', v') # ob
      | None \<Rightarrow> (k, v) # (k', v') # ob)"

text \<open>Defining or assigning the own property \<open>k\<close>.\<close>

definition obj_put :: "'v js_object \<Rightarrow> jstring \<Rightarrow> 'v \<Rightarrow> 'v js_object" where
  "obj_put ob k v =
     (case map_of ob k of
        Some old \<Rightarrow> map_set ob k v
      | None \<Rightarrow> (case array_index k of
                   Some n \<Rightarrow> obj_insert_index n k v ob
                 | None \<Rightarrow> ob @ [(k, v)]))"

text \<open>\<^verbatim>\<open>Object.fromEntries\<close>, and the object that \<^verbatim>\<open>JSON.parse\<close> builds from the members of
  a JSON object in the order of the text.\<close>

definition fromEntries :: "(jstring \<times> 'v) list \<Rightarrow> 'v js_object" where
  "fromEntries xs = foldl (\<lambda>ob (k, v). obj_put ob k v) [] xs"

text \<open>The property names that an object literal \<^verbatim>\<open>{}\<close> inherits from
  \<^verbatim>\<open>Object.prototype\<close>.\<close>

definition object_prototype_keys :: "jstring list" where
  "object_prototype_keys = map str
     [''constructor'', ''hasOwnProperty'', ''isPrototypeOf'', ''propertyIsEnumerable'',
      ''toLocaleString'', ''toString'', ''valueOf'', ''__proto__'', ''__defineGetter__'',
      ''__defineSetter__'', ''__lookupGetter__'', ''__lookupSetter__'']"

subsection \<open>Building the forward map\<close>

definition normalize :: "env \<Rightarrow> jstring \<Rightarrow> jstring" where
  "normalize E s = toLowerCase E (nfd E (trim s))"

text \<open>
  The rule parser is a generated program outside the repository. A parsed line is its
  right-hand side and its left-hand sides (one, or the members of a bracket expression).
\<close>

type_synonym rule_line = "jstring list \<times> jstring"

text \<open>The body of the innermost loop (\<^verbatim>\<open>build.ts\<close>, lines 49 to 60): insertion, then the
  chaining rule.\<close>

definition insert_rule :: "env \<Rightarrow> char_map \<Rightarrow> jstring \<Rightarrow> jstring \<Rightarrow> char_map" where
  "insert_rule E m lhs0 rhs0 =
     (let lhs = normalize E lhs0; rhs = normalize E rhs0
      in if lhs = [] then m
         else (let m1 = map_set m lhs rhs
               in (case map_of m1 rhs of Some further \<Rightarrow> map_set m1 lhs further | None \<Rightarrow> m1)))"

definition insert_line :: "env \<Rightarrow> char_map \<Rightarrow> rule_line \<Rightarrow> char_map" where
  "insert_line E m line = foldl (\<lambda>m' lhs. insert_rule E m' lhs (snd line)) m (fst line)"

definition insert_file :: "env \<Rightarrow> char_map \<Rightarrow> rule_line list \<Rightarrow> char_map" where
  "insert_file E m lines = foldl (insert_line E) m lines"

text \<open>
  The three file-name patterns \<^verbatim>\<open>/_InterIndic\.txt$/\<close>,
  \<^verbatim>\<open>/(?<!Grek)(?:_Latn|_Latin|_Latn_BGN)\.txt$/\<close> and \<^verbatim>\<open>/^Latin_ASCII\.txt$/\<close>.
\<close>

datatype step = InterIndic | ToLatin | LatinASCII

definition ends_with_unless :: "jstring \<Rightarrow> jstring \<Rightarrow> jstring \<Rightarrow> bool" where
  "ends_with_unless ending barred name \<longleftrightarrow>
     suffix ending name \<and> \<not> suffix barred (take (length name - length ending) name)"

fun step_matches :: "step \<Rightarrow> jstring \<Rightarrow> bool" where
  "step_matches InterIndic name = suffix (str ''_InterIndic.txt'') name"
| "step_matches ToLatin name =
     (ends_with_unless (str ''_Latn.txt'') (str ''Grek'') name
      \<or> ends_with_unless (str ''_Latin.txt'') (str ''Grek'') name
      \<or> ends_with_unless (str ''_Latn_BGN.txt'') (str ''Grek'') name)"
| "step_matches LatinASCII name = (name = str ''Latin_ASCII.txt'')"

text \<open>\<^verbatim>\<open>[...].reverse()\<close>\<close>

definition mappingStepFileNameRegexes :: "step list" where
  "mappingStepFileNameRegexes = rev [InterIndic, ToLatin, LatinASCII]"

type_synonym dir_entry = "jstring \<times> rule_line list"

definition matched :: "step \<Rightarrow> dir_entry list \<Rightarrow> dir_entry list" where
  "matched re entries = filter (\<lambda>entry. step_matches re (fst entry)) entries"

definition apply_steps :: "env \<Rightarrow> step list \<Rightarrow> dir_entry list \<Rightarrow> char_map" where
  "apply_steps E steps entries =
     foldl (\<lambda>m re. foldl (\<lambda>m' f. insert_file E m' (snd f)) m (matched re entries)) [] steps"

definition dirEntries :: "env \<Rightarrow> dir_entry list \<Rightarrow> dir_entry list" where
  "dirEntries E dir = js_sort (\<lambda>a b. sortAlphabetical E (fst a) (fst b)) dir"

definition forward_map :: "env \<Rightarrow> dir_entry list \<Rightarrow> char_map" where
  "forward_map E dir = apply_steps E mappingStepFileNameRegexes (dirEntries E dir)"

subsection \<open>Inverting a map into the serialised table\<close>

text \<open>
  \<^verbatim>\<open>_out[v] ??= []; _out[v].push(k)\<close> on the object literal \<^verbatim>\<open>_out = {}\<close>: reading an
  inherited property yields a value that is neither nullish nor an array, and calling its
  missing \<^verbatim>\<open>push\<close> throws.
\<close>

definition group_step ::
  "(jstring list) js_object \<Rightarrow> jstring \<times> jstring \<Rightarrow> error + (jstring list) js_object" where
  "group_step ob kv =
     (case map_of ob (snd kv) of
        Some ks \<Rightarrow> Inr (map_set ob (snd kv) (ks @ [fst kv]))
      | None \<Rightarrow>
          if snd kv \<in> set object_prototype_keys then Inl TypeError
          else Inr (obj_put ob (snd kv) [fst kv]))"

fun group_all :: "(jstring list) js_object \<Rightarrow> char_map \<Rightarrow> error + (jstring list) js_object" where
  "group_all ob [] = Inr ob"
| "group_all ob (kv # m) = bind_err (group_step ob kv) (\<lambda>ob'. group_all ob' m)"

definition out_entry :: "env \<Rightarrow> jstring \<times> jstring list \<Rightarrow> jstring \<times> jstring" where
  "out_entry E kv = (fst kv, join [44] (dedupe (js_sort (sortAlphabetical E) (snd kv))))"

text \<open>The object \<^verbatim>\<open>out\<close> that is written to the table file (\<^verbatim>\<open>build.ts\<close>, lines 84 to
  98), for a given \<^verbatim>\<open>map\<close>.\<close>

definition out :: "env \<Rightarrow> char_map \<Rightarrow> error + jstring js_object" where
  "out E m =
     bind_err (group_all [] m) (\<lambda>grouped.
       Inr (fromEntries (map (out_entry E)
              (js_sort (\<lambda>a b. sortAlphabetical E (fst a) (fst b)) grouped))))"

subsection \<open>Loading the table\<close>

text \<open>The members of the table file, in the order of the text, become the imported object;
  every source listed under a root is then set to that root.\<close>

definition load_root :: "char_map \<Rightarrow> jstring \<times> jstring \<Rightarrow> char_map" where
  "load_root m x = foldl (\<lambda>m' y. map_set m' y (fst x)) m (split_comma (snd x))"

definition load_charMap :: "(jstring \<times> jstring) list \<Rightarrow> char_map" where
  "load_charMap file = foldl load_root [] (fromEntries file)"

section \<open>A sample directory of rule files\<close>

text \<open>One file maps U+0915 to the intermediate code point U+E015, the other maps U+E015
  to \<^verbatim>\<open>ka\<close>.\<close>

definition sample_dir :: "dir_entry list" where
  "sample_dir = [(str ''InterIndic_Latin.txt'', [([[57365]], str ''ka'')]),
                 (str ''Devanagari_InterIndic.txt'', [([[2325]], [57365])])]"

section \<open>Notions used in the statements\<close>



text \<open>
  Transliteration in the words of the specification: the longest key that matches at a
  position, and the left-to-right, non-overlapping replacement of every such match by the
  root the map gives it, unmatched characters being copied.
\<close>

fun longest_match :: "jstring list \<Rightarrow> jstring \<Rightarrow> jstring option" where
  "longest_match [] rest = None"
| "longest_match (k # ks) rest =
     (case longest_match ks rest of
        None \<Rightarrow> if prefix k rest then Some k else None
      | Some k' \<Rightarrow> if prefix k rest \<and> length k' < length k then Some k else Some k')"

definition root_of :: "char_map \<Rightarrow> jstring \<Rightarrow> jstring" where
  "root_of cm k = the (map_of cm k)"

function transliterate_spec :: "char_map \<Rightarrow> jstring \<Rightarrow> jstring" where
  "transliterate_spec cm [] =
     (case longest_match (map fst cm) [] of Some k \<Rightarrow> root_of cm k | None \<Rightarrow> [])"
| "transliterate_spec cm (c # cs) =
     (case longest_match (map fst cm) (c # cs) of
        None \<Rightarrow> c # transliterate_spec cm cs
      | Some k \<Rightarrow>
          if k = [] then root_of cm k @ c # transliterate_spec cm cs
          else root_of cm k @ transliterate_spec cm (drop (length k) (c # cs)))"
  by pat_completeness auto
termination
  by (relation "measure (\<lambda>(cm, s). length s)") auto

text \<open>The upper-case ASCII letters.\<close>

definition ascii_upper :: "nat \<Rightarrow> bool" where
  "ascii_upper c \<longleftrightarrow> 65 \<le> c \<and> c \<le> 90"

definition is_ascii :: "nat \<Rightarrow> bool" where
  "is_ascii c \<longleftrightarrow> c < 128"

definition no_upper :: "jstring \<Rightarrow> bool" where
  "no_upper s = list_all (\<lambda>c. \<not> ascii_upper c) s"

text \<open>The 128 ASCII code points in order: \<^verbatim>\<open>Array.from({ length: 0x80 }, (_, i) =>
  String.fromCharCode(i)).join("")\<close> in the repository's test of the output characters.\<close>

definition ALL_ASCII :: jstring where
  "ALL_ASCII = map nat [0..127]"

text \<open>
  The order in which an object lists its keys: an array index comes before every key that
  is not one, and array indices ascend.
\<close>

definition key_before :: "jstring \<Rightarrow> jstring \<Rightarrow> bool" where
  "key_before k k' =
     (case array_index k of
        Some n \<Rightarrow> (case array_index k' of Some n' \<Rightarrow> n < n' | None \<Rightarrow> True)
      | None \<Rightarrow> array_index k' = None)"

definition property_order :: "jstring list \<Rightarrow> bool" where
  "property_order ks = sorted_wrt key_before ks"

definition not_index :: "jstring \<Rightarrow> bool" where
  "not_index k \<longleftrightarrow> array_index k = None"

text \<open>Distinct keys of a set have distinct array indices.\<close>

definition index_inj :: "jstring set \<Rightarrow> bool" where
  "index_inj K \<longleftrightarrow> (\<forall>k\<in>K. \<forall>k'\<in>K. array_index k = array_index k' \<longrightarrow> not_index k \<or> k = k')"

text \<open>The array index of the key of an entry that has one.\<close>

definition index_of :: "jstring \<times> 'v \<Rightarrow> nat" where
  "index_of e = the (array_index (fst e))"

text \<open>Sorted by \<^verbatim>\<open>sortAlphabetical\<close>.\<close>

definition alphabetical :: "env \<Rightarrow> jstring list \<Rightarrow> bool" where
  "alphabetical E xs = sorted_wrt (\<lambda>a b. sortAlphabetical E a b \<le> 0) xs"

text \<open>The sources listed under the roots of a table file.\<close>

definition sources :: "(jstring \<times> jstring) list \<Rightarrow> jstring list" where
  "sources file = concat (map (\<lambda>x. split_comma (snd x)) file)"

text \<open>The entries that loading a table file sets, and the groups they fall into.\<close>

definition expanded :: "(jstring \<times> jstring) list \<Rightarrow> char_map" where
  "expanded file = concat (map (\<lambda>x. map (\<lambda>y. (y, fst x)) (split_comma (snd x))) file)"

definition grouped :: "(jstring \<times> jstring) list \<Rightarrow> (jstring list) js_object" where
  "grouped file = map (\<lambda>x. (fst x, split_comma (snd x))) file"

text \<open>A table file whose roots are in alphabetical order but not in the order in which
  an object lists them.\<close>

definition sample_table :: "(jstring \<times> jstring) list" where
  "sample_table = [(str ''10'', [9321]), (str ''2'', [9313])]"

section \<open>Evaluation\<close>

lemmas model_defs = slugify_def config_of_def getTransliterationRe_def pattern_source_def sort_keys_def
  alternation_def slugify_core_def stages_def survivors_def active_strip_def separator_def
  convertWord_def map_get_or_def replaceAll_def bind_err_def no_options_def
  NON_WORD_def NON_ASCII_def HYPHEN_RUN_def EDGE_HYPHEN_def MATCH_NOTHING_def run_length_def
  word_char_def ascii_word_char_def ascii_letter_def trim_def is_white_space_def str_def
  literal_key_def syntax_char_def js_length_def replace_from.simps

lemmas sample_defs = sample_env_def sample_segment_def seg_start_def sample_isL_def sample_isM_def
  sample_isN_def sample_lower_def sample_regexp_def line_terminator_def Let_def

section \<open>Unfolding \<open>replace_from\<close>\<close>

lemma replace_from_None:
  "re_exec re b rest = None \<Longrightarrow> \<not> re_sticky re \<Longrightarrow>
   replace_from re f b rest = (case rest of [] \<Rightarrow> [] | c # cs \<Rightarrow> c # replace_from re f (b @ [c]) cs)"
  by (subst replace_from.simps) simp

lemma replace_from_Some:
  "re_exec re b rest = Some n \<Longrightarrow> 0 < n \<Longrightarrow> n \<le> length rest \<Longrightarrow>
   replace_from re f b rest = f (take n rest) @ replace_from re f (b @ take n rest) (drop n rest)"
  by (subst replace_from.simps) simp


section \<open>Collapsing and trimming hyphens\<close>

lemma no_double_Cons: "no_double_hyphen (c # s) = (\<not> (c = 45 \<and> starts_hyphen s) \<and> no_double_hyphen s)"
  by (cases s) (auto simp: starts_hyphen_def)

lemma hyphen_exec_None:
  "re_exec HYPHEN_RUN b (c # cs) = None \<Longrightarrow> \<not> (c = 45 \<and> starts_hyphen cs)"
  by (cases cs) (auto simp: HYPHEN_RUN_def starts_hyphen_def Let_def split: if_splits)

lemma hyphen_exec_Some:
  "re_exec HYPHEN_RUN b rest = Some n \<Longrightarrow> 2 \<le> n \<and> n \<le> length rest \<and> \<not> starts_hyphen (drop n rest)"
proof -
  assume a: "re_exec HYPHEN_RUN b rest = Some n"
  then have n: "n = length (takeWhile (\<lambda>c. c = 45) rest)" and n2: "2 \<le> n"
    by (auto simp: HYPHEN_RUN_def Let_def split: if_splits)
  have "drop n rest = dropWhile (\<lambda>c. c = 45) rest"
    unfolding n by (rule dropWhile_eq_drop [symmetric])
  moreover have "\<not> starts_hyphen (dropWhile (\<lambda>c. c = 45) rest)"
  proof (cases "dropWhile (\<lambda>c. c = 45) rest")
    case Nil
    show ?thesis unfolding Nil by (simp add: starts_hyphen_def)
  next
    case (Cons y ys)
    then have "y \<noteq> 45" using hd_dropWhile[of "\<lambda>c. c = 45" rest] by simp
    then show ?thesis unfolding Cons by (simp add: starts_hyphen_def)
  qed
  moreover have "n \<le> length rest" unfolding n by (rule length_takeWhile_le)
  ultimately show ?thesis using n2 by simp
qed

lemma collapse_inv:
  "no_double_hyphen (replace_from HYPHEN_RUN (\<lambda>m. [45]) b rest)
   \<and> (starts_hyphen (replace_from HYPHEN_RUN (\<lambda>m. [45]) b rest) \<longrightarrow> starts_hyphen rest)"
proof (induction HYPHEN_RUN "\<lambda>m::jstring. [45::nat]" b rest rule: replace_from.induct)
  case (1 seen rest)
  show ?case
  proof (cases "re_exec HYPHEN_RUN seen rest")
    case None
    show ?thesis
    proof (cases rest)
      case Nil
      have ns: "\<not> re_sticky HYPHEN_RUN" by (simp add: HYPHEN_RUN_def)
      show ?thesis unfolding Nil using None ns
        by (simp add: replace_from_None Nil starts_hyphen_def)
    next
      case (Cons c cs)
      have ns: "\<not> re_sticky HYPHEN_RUN" by (simp add: HYPHEN_RUN_def)
      from 1(1)[OF None ns Cons]
      have ih: "no_double_hyphen (replace_from HYPHEN_RUN (\<lambda>m. [45]) (seen @ [c]) cs)"
        "starts_hyphen (replace_from HYPHEN_RUN (\<lambda>m. [45]) (seen @ [c]) cs) \<longrightarrow> starts_hyphen cs"
        by auto
      have eq: "replace_from HYPHEN_RUN (\<lambda>m. [45]) seen (c # cs)
                 = c # replace_from HYPHEN_RUN (\<lambda>m. [45]) (seen @ [c]) cs"
        using None ns Cons by (simp add: replace_from_None)
      from hyphen_exec_None[of seen c cs] None Cons
      have "\<not> (c = 45 \<and> starts_hyphen cs)" by simp
      with ih show ?thesis unfolding Cons eq
        by (auto simp: no_double_Cons starts_hyphen_def)
    qed
  next
    case (Some n)
    from hyphen_exec_Some[OF Some]
    have n: "2 \<le> n" "n \<le> length rest" "\<not> starts_hyphen (drop n rest)" by auto
    then have m: "min n (length rest) \<noteq> 0" by simp
    from 1(3)[OF Some m]
    have ih: "no_double_hyphen (replace_from HYPHEN_RUN (\<lambda>m. [45]) (seen @ take n rest) (drop n rest))"
        "starts_hyphen (replace_from HYPHEN_RUN (\<lambda>m. [45]) (seen @ take n rest) (drop n rest)) \<longrightarrow> starts_hyphen (drop n rest)"
      by auto
    have eq: "replace_from HYPHEN_RUN (\<lambda>m. [45]) seen rest
               = 45 # replace_from HYPHEN_RUN (\<lambda>m. [45]) (seen @ take n rest) (drop n rest)"
      using Some n by (simp add: replace_from_Some)
    have "starts_hyphen rest" using Some
      by (cases rest) (auto simp: HYPHEN_RUN_def Let_def starts_hyphen_def split: if_splits)
    with ih n show ?thesis unfolding eq
      by (auto simp: no_double_Cons)
  qed
qed


lemma edge_tail:
  "b \<noteq> [] \<Longrightarrow>
   replace_from EDGE_HYPHEN (\<lambda>m. []) b rest = (if ends_hyphen rest then butlast rest else rest)"
proof (induction rest arbitrary: b)
  case Nil
  have "re_exec EDGE_HYPHEN b [] = None" by (simp add: EDGE_HYPHEN_def)
  moreover have "\<not> re_sticky EDGE_HYPHEN" by (simp add: EDGE_HYPHEN_def)
  ultimately show ?case by (simp add: replace_from_None ends_hyphen_def)
next
  case (Cons c cs)
  have ns: "\<not> re_sticky EDGE_HYPHEN" by (simp add: EDGE_HYPHEN_def)
  show ?case
  proof (cases "c = 45 \<and> cs = []")
    case True
    then have ex: "re_exec EDGE_HYPHEN b (c # cs) = Some 1"
      using Cons.prems by (simp add: EDGE_HYPHEN_def)
    have ex2: "re_exec EDGE_HYPHEN (b @ [c]) [] = None" by (simp add: EDGE_HYPHEN_def)
    have "replace_from EDGE_HYPHEN (\<lambda>m. []) b (c # cs)
            = replace_from EDGE_HYPHEN (\<lambda>m. []) (b @ [c]) []"
      using replace_from_Some[OF ex, of "\<lambda>m. []"] True by simp
    also have "\<dots> = []" using ex2 ns by (simp add: replace_from_None)
    finally show ?thesis using True by (simp add: ends_hyphen_def)
  next
    case False
    then have ex: "re_exec EDGE_HYPHEN b (c # cs) = None"
      using Cons.prems by (auto simp: EDGE_HYPHEN_def)
    have "b @ [c] \<noteq> []" by simp
    from Cons.IH[OF this] False show ?thesis
      by (auto simp: replace_from_None[OF ex ns] ends_hyphen_def)
  qed
qed

lemma edge_all: "replace_from EDGE_HYPHEN (\<lambda>m. []) [] s = strip_edges s"
proof (cases s)
  case Nil
  have "re_exec EDGE_HYPHEN [] [] = None" by (simp add: EDGE_HYPHEN_def)
  moreover have "\<not> re_sticky EDGE_HYPHEN" by (simp add: EDGE_HYPHEN_def)
  ultimately show ?thesis unfolding Nil
    by (simp add: replace_from_None strip_edges_def starts_hyphen_def ends_hyphen_def)
next
  case (Cons c cs)
  have ns: "\<not> re_sticky EDGE_HYPHEN" by (simp add: EDGE_HYPHEN_def)
  show ?thesis
  proof (cases "c = 45")
    case True
    then have ex: "re_exec EDGE_HYPHEN [] (c # cs) = Some 1" by (simp add: EDGE_HYPHEN_def)
    have "replace_from EDGE_HYPHEN (\<lambda>m. []) [] (c # cs)
            = replace_from EDGE_HYPHEN (\<lambda>m. []) [c] cs"
      using replace_from_Some[OF ex, of "\<lambda>m. []"] by simp
    then show ?thesis unfolding Cons using True
      by (simp add: edge_tail strip_edges_def starts_hyphen_def)
  next
    case False
    then have ex: "re_exec EDGE_HYPHEN [] (c # cs) = None" by (auto simp: EDGE_HYPHEN_def)
    show ?thesis unfolding Cons using False
      by (auto simp: replace_from_None[OF ex ns] edge_tail strip_edges_def starts_hyphen_def
          ends_hyphen_def)
  qed
qed

lemma no_double_tl: "no_double_hyphen s \<Longrightarrow> no_double_hyphen (tl s)"
  by (cases s) (auto simp: no_double_Cons)

lemma no_double_butlast: "no_double_hyphen s \<Longrightarrow> no_double_hyphen (butlast s)"
  by (induction s rule: no_double_hyphen.induct) (auto simp: no_double_Cons starts_hyphen_def)

lemma no_double_tl_starts: "no_double_hyphen s \<Longrightarrow> starts_hyphen s \<Longrightarrow> \<not> starts_hyphen (tl s)"
  by (cases s) (auto simp: no_double_Cons starts_hyphen_def)

lemma no_double_butlast_ends: "no_double_hyphen s \<Longrightarrow> ends_hyphen s \<Longrightarrow> \<not> ends_hyphen (butlast s)"
  by (induction s rule: no_double_hyphen.induct) (auto simp: ends_hyphen_def split: if_splits)

lemma starts_butlast: "\<not> starts_hyphen s \<Longrightarrow> \<not> starts_hyphen (butlast s)"
  by (cases s) (auto simp: starts_hyphen_def)

lemma strip_edges_shape:
  assumes "no_double_hyphen s"
  shows "no_double_hyphen (strip_edges s) \<and> \<not> starts_hyphen (strip_edges s)
         \<and> \<not> ends_hyphen (strip_edges s)"
proof -
  define s1 where "s1 = (if starts_hyphen s then tl s else s)"
  have a: "no_double_hyphen s1" "\<not> starts_hyphen s1"
    using assms by (auto simp: s1_def no_double_tl no_double_tl_starts)
  have e: "strip_edges s = (if ends_hyphen s1 then butlast s1 else s1)"
    by (simp add: strip_edges_def s1_def)
  show ?thesis unfolding e using a
    by (auto simp: no_double_butlast no_double_butlast_ends starts_butlast)
qed


lemma slugify_core_shape:
  assumes "slugify_core E config strip_opt input = Inr r"
  shows "no_double_hyphen r \<and> r \<noteq> [] \<and> ((starts_hyphen r \<or> ends_hyphen r) \<longrightarrow> r = [45])"
proof -
  from assms obtain t where t: "stages E config strip_opt input = Inr t"
    and r: "r = (if t = [] then [45] else t)"
    by (auto simp: slugify_core_def bind_err_def split: sum.splits)
  from t obtain x where "t = strip_edges (replace_from HYPHEN_RUN (\<lambda>m. [45]) [] x)"
    by (auto simp: stages_def bind_err_def replaceAll_def edge_all split: sum.splits if_splits)
  then have "no_double_hyphen t \<and> \<not> starts_hyphen t \<and> \<not> ends_hyphen t"
    using strip_edges_shape[of "replace_from HYPHEN_RUN (\<lambda>m. [45]) [] x"] collapse_inv[of "[]" x]
    by simp
  then show ?thesis unfolding r by (auto simp: starts_hyphen_def ends_hyphen_def)
qed

lemma slugify_core_of_slugify:
  assumes "fst (slugify E cache input options) = Inr r"
  obtains config where "slugify_core E config (strip options) input = Inr r"
  using assms by (auto simp: slugify_def split: prod.splits sum.splits)

text \<open>
  C9. Whatever the input, the options and the cache, a string that \<open>slugify\<close> returns has
  no two consecutive hyphens, and it starts or ends with a hyphen only if it is the
  one-character string \<^verbatim>\<open>"-"\<close>.
\<close>

theorem slugify_hyphen_structure:
  assumes "fst (slugify E cache input options) = Inr r"
  shows "no_double_hyphen r \<and> ((starts_hyphen r \<or> ends_hyphen r) \<longrightarrow> r = [45])"
proof -
  from assms obtain config where "slugify_core E config (strip options) input = Inr r"
    by (rule slugify_core_of_slugify)
  from slugify_core_shape[OF this] show ?thesis by simp
qed

theorem slugify_hyphen_structure_witness:
  "fst (slugify sample_env Map.empty (str ''--Hello--World--'') no_options) = Inr (str ''hello-world'')
   \<and> no_double_hyphen (str ''hello-world'')
   \<and> \<not> starts_hyphen (str ''hello-world'') \<and> \<not> ends_hyphen (str ''hello-world'')"
proof -
  have e: "fst (slugify sample_env Map.empty (str ''--Hello--World--'') no_options)
             = Inr (str ''hello-world'')"
    by (simp add: model_defs sample_defs)
  from slugify_hyphen_structure[OF e] e show ?thesis
    by (simp add: str_def starts_hyphen_def ends_hyphen_def)
qed

section \<open>The fallback\<close>

lemma replaceAll_global: "re_global re \<Longrightarrow> replaceAll re f s = Inr (replace_from re f [] s)"
  by (simp add: replaceAll_def)

lemma global_fixed [simp]:
  "re_global HYPHEN_RUN" "re_global EDGE_HYPHEN" "re_global NON_ASCII" "re_global (NON_WORD E)"
  "re_global MATCH_NOTHING" "re_global (alternation ks)"
  by (simp_all add: HYPHEN_RUN_def EDGE_HYPHEN_def NON_ASCII_def NON_WORD_def MATCH_NOTHING_def
      alternation_def)

lemma replace_from_Nil_None:
  "re_exec re seen [] = None \<Longrightarrow> replace_from re f seen [] = []"
  by (subst replace_from.simps) simp

lemma stages_of_survivors:
  "survivors E config so input = Inr x \<Longrightarrow>
   stages E config so input = Inr (strip_edges (replace_from HYPHEN_RUN (\<lambda>m. [45]) [] (nfc E x)))"
  by (simp add: stages_def bind_err_def replaceAll_global edge_all)

lemma collapse_Nil: "replace_from HYPHEN_RUN (\<lambda>m. [45]) [] [] = []"
  by (rule replace_from_Nil_None) (simp add: HYPHEN_RUN_def)

lemma strip_edges_Nil: "strip_edges [] = []"
  by (simp add: strip_edges_def starts_hyphen_def ends_hyphen_def)

lemma slugify_core_fallback:
  "stages E config so input = Inr [] \<Longrightarrow> slugify_core E config so input = Inr [45]"
  by (simp add: slugify_core_def bind_err_def)

lemma slugify_of_config:
  "config_of E cache options = (Inr config, cache') \<Longrightarrow>
   slugify E cache input options = (slugify_core E config (strip options) input, cache')"
  by (simp add: slugify_def)

lemma survivors_empty_input:
  assumes "nfd E [] = []" "toLowerCase E [] = []" "segment E [] = []"
  shows "survivors E NoTransliterate None [] = Inr []"
proof -
  have "re_exec (NON_WORD E) [] [] = None" by (simp add: NON_WORD_def run_length_def)
  then have "replace_from (NON_WORD E) (\<lambda>m. []) [] [] = []" by (rule replace_from_Nil_None)
  then show ?thesis using assms
    by (simp add: survivors_def active_strip_def separator_def trim_def bind_err_def
        replaceAll_global)
qed

text \<open>
  C8. On the empty string, with no options, \<open>slugify\<close> returns \<^verbatim>\<open>"-"\<close> (the host's
  normaliser, lower-casing and segmenter map the empty string to nothing). More generally,
  whenever the stages before the fallback yield the empty string, \<open>slugify\<close> returns
  \<^verbatim>\<open>"-"\<close>.
\<close>

theorem slugify_empty_fallback:
  "(nfd E [] = [] \<and> toLowerCase E [] = [] \<and> segment E [] = [] \<and> nfc E [] = []
      \<longrightarrow> fst (slugify E cache [] no_options) = Inr [45])
   \<and> (fst (config_of E cache options) = Inr config \<and> stages E config (strip options) input = Inr []
      \<longrightarrow> fst (slugify E cache input options) = Inr [45])"
proof (intro conjI impI)
  assume a: "nfd E [] = [] \<and> toLowerCase E [] = [] \<and> segment E [] = [] \<and> nfc E [] = []"
  then have "survivors E NoTransliterate None [] = Inr []"
    by (simp add: survivors_empty_input)
  from stages_of_survivors[OF this] a
  have "stages E NoTransliterate None [] = Inr []"
    by (simp add: collapse_Nil strip_edges_Nil)
  then have "slugify_core E NoTransliterate None [] = Inr [45]"
    by (rule slugify_core_fallback)
  then show "fst (slugify E cache [] no_options) = Inr [45]"
    by (simp add: slugify_def config_of_def no_options_def)
next
  assume b: "fst (config_of E cache options) = Inr config
     \<and> stages E config (strip options) input = Inr []"
  then obtain cache' where "config_of E cache options = (Inr config, cache')"
    by (cases "config_of E cache options") auto
  from slugify_of_config[OF this] b show "fst (slugify E cache input options) = Inr [45]"
    by (simp add: slugify_core_fallback)
qed

theorem slugify_empty_fallback_witness:
  "nfd sample_env [] = [] \<and> toLowerCase sample_env [] = [] \<and> segment sample_env [] = []
   \<and> nfc sample_env [] = []
   \<and> fst (slugify sample_env Map.empty [] no_options) = Inr (str ''-'')
   \<and> fst (config_of sample_env Map.empty \<lparr>charMap = Some (0, []), strip = None\<rparr>)
       = Inr (Transliterate [] MATCH_NOTHING)
   \<and> stages sample_env (Transliterate [] MATCH_NOTHING) None [963, 965] = Inr []
   \<and> fst (slugify sample_env Map.empty [963, 965] \<lparr>charMap = Some (0, []), strip = None\<rparr>)
       = Inr (str ''-'')"
proof -
  have h1: "nfd sample_env [] = [] \<and> toLowerCase sample_env [] = [] \<and> segment sample_env [] = []
     \<and> nfc sample_env [] = []"
    by (simp add: sample_defs)
  have h2: "fst (config_of sample_env Map.empty \<lparr>charMap = Some (0, []), strip = None\<rparr>)
       = Inr (Transliterate [] MATCH_NOTHING)
     \<and> stages sample_env (Transliterate [] MATCH_NOTHING)
          (strip \<lparr>charMap = Some (0, []), strip = None\<rparr>) [963, 965] = Inr []"
    by (simp add: model_defs sample_defs)
  from slugify_empty_fallback[of sample_env Map.empty
      "\<lparr>charMap = Some (0, []), strip = None\<rparr>" "Transliterate [] MATCH_NOTHING" "[963, 965]"]
    h1 h2
  show ?thesis by (simp add: str_def)
qed

section \<open>Totality\<close>









lemma join_chars: "list_all (list_all P) ws \<Longrightarrow> list_all P sep \<Longrightarrow> list_all P (join sep ws)"
  by (induction sep ws rule: join.induct) auto



text \<open>
  The keys go into the source text of the pattern as they are (\<^verbatim>\<open>slugify.ts\<close>, line 36; the
  build script escapes the keys of its own pattern with \<^verbatim>\<open>regExpEscape\<close>). A key that is not
  a pattern, such as \<^verbatim>\<open>(\<close>, makes the call throw a \<^verbatim>\<open>SyntaxError\<close>.
\<close>

lemma unescaped_key_throws:
  "fst (slugify sample_env Map.empty (str ''a'')
          \<lparr>charMap = Some (0, [(str ''('', str ''x'')]), strip = None\<rparr>) = Inl SyntaxError"
  by (simp add: model_defs sample_defs)

section \<open>The pattern cache\<close>

text \<open>
  The first call with a non-empty map stores the pattern compiled from the keys the map
  has then, under the map's identity. Every later call with the same map uses that stored
  pattern, whatever entries the map has by then, and looks the replacement up in the
  entries of the later call.
\<close>

lemma cached_pattern_reused:
  assumes "cm \<noteq> []" and "cache r = None"
    and "regexp_gu E (pattern_source (map fst cm)) = Inr first_re"
  shows "let cache1 = snd (slugify E cache input \<lparr>charMap = Some (r, cm), strip = so\<rparr>)
         in cache1 r = Some first_re
            \<and> slugify E cache1 input' \<lparr>charMap = Some (r, cm'), strip = so'\<rparr>
                = (slugify_core E (Transliterate cm' first_re) so' input', cache1)"
proof -
  have g: "getTransliterationRe E cache r cm = (Inr first_re, cache(r \<mapsto> first_re))"
    using assms by (simp add: getTransliterationRe_def)
  then have c1: "snd (slugify E cache input \<lparr>charMap = Some (r, cm), strip = so\<rparr>)
                  = cache(r \<mapsto> first_re)"
    by (simp add: slugify_def config_of_def)
  have "slugify E (cache(r \<mapsto> first_re)) input' \<lparr>charMap = Some (r, cm'), strip = so'\<rparr>
          = (slugify_core E (Transliterate cm' first_re) so' input', cache(r \<mapsto> first_re))"
    by (simp add: slugify_def config_of_def getTransliterationRe_def)
  then show ?thesis unfolding Let_def c1 by simp
qed

text \<open>
  C10. The claim holds of a pattern that matches the keys themselves, and the code misses
  it: a key goes into the source text unescaped, so the stored pattern of the map
  whose one key is \<^verbatim>\<open>.\<close> is \<^verbatim>\<open>/(?:.)/gu\<close>, which matches every character within a
  line. After the first call
  the key \<^verbatim>\<open>a\<close> is added to the same map; the second call matches \<^verbatim>\<open>a\<close> with the stored
  pattern and replaces it by the value of the new key.
\<close>

theorem stale_pattern_matches_later_key:
  "(let cache1 = snd (slugify sample_env Map.empty (str ''a'')
                        \<lparr>charMap = Some (7, [(str ''.'', str ''x'')]), strip = None\<rparr>)
    in fst (slugify sample_env cache1 (str ''a'')
              \<lparr>charMap = Some (7, [(str ''.'', str ''x''), (str ''a'', str ''z'')]), strip = None\<rparr>))
   = Inr (str ''z'')"
  by (simp add: model_defs sample_defs)

section \<open>The chaining rule\<close>

lemma map_of_map_set: "map_of (map_set m k v) k' = (if k' = k then Some v else map_of m k')"
  by (induction m k v rule: map_set.induct) auto

lemma keys_map_set: "fst ` set (map_set m k v) = insert k (fst ` set m)"
  by (induction m k v rule: map_set.induct) auto

text \<open>
  C7. Right after a record \<open>from \<rightarrow> to\<close> (both normalised, \<open>from\<close> not empty) is set in the
  map, if \<open>to\<close> is a key of the map then the entry of \<open>from\<close> is set to the value the map
  holds for \<open>to\<close>; otherwise it stays \<open>to\<close>. No other entry changes.
\<close>

theorem chaining_rule:
  assumes "normalize E lhs0 \<noteq> []"
  shows "let from = normalize E lhs0; to = normalize E rhs0;
             inserted = map_set m from to;
             m' = insert_rule E m lhs0 rhs0
         in map_of m' from = Some (case map_of inserted to of Some further \<Rightarrow> further | None \<Rightarrow> to)
            \<and> (to \<noteq> from \<longrightarrow>
                 map_of m' from = Some (case map_of m to of Some further \<Rightarrow> further | None \<Rightarrow> to))
            \<and> (\<forall>k. k \<noteq> from \<longrightarrow> map_of m' k = map_of m k)"
  using assms
  by (auto simp: insert_rule_def Let_def map_of_map_set split: option.splits)

theorem chaining_rule_witness:
  "normalize sample_env (str ''B'') \<noteq> []
   \<and> map_of (insert_rule sample_env [(str ''b'', str ''c''), (str ''k'', str ''l'')] (str ''A'') (str ''B''))
        (str ''a'') = Some (str ''c'')
   \<and> map_of (insert_rule sample_env [(str ''b'', str ''c''), (str ''k'', str ''l'')] (str ''A'') (str ''B''))
        (str ''k'') = Some (str ''l'')"
proof -
  have h: "normalize sample_env (str ''A'') \<noteq> []"
    by (simp add: normalize_def sample_defs trim_def is_white_space_def str_def)
  have n: "normalize sample_env (str ''A'') = str ''a''" "normalize sample_env (str ''B'') = str ''b''"
    by (simp_all add: normalize_def sample_defs trim_def is_white_space_def str_def)
  from chaining_rule[OF h, of "str ''B''" "[(str ''b'', str ''c''), (str ''k'', str ''l'')]"]
  show ?thesis unfolding Let_def n by (simp add: str_def)
qed

section \<open>The order of the rule files\<close>

lemma steps_value: "mappingStepFileNameRegexes = [LatinASCII, ToLatin, InterIndic]"
  by (simp add: mappingStepFileNameRegexes_def)

lemma foldl_files_append:
  "foldl (\<lambda>m' f. insert_file E m' (snd f)) m (xs @ ys)
     = foldl (\<lambda>m' f. insert_file E m' (snd f)) (foldl (\<lambda>m' f. insert_file E m' (snd f)) m xs) ys"
  by simp

text \<open>
  C6, as the claim states it, fails. With one rule file that maps U+0915 to the
  intermediate code point U+E015 and one that maps U+E015 to \<^verbatim>\<open>ka\<close>, the compiler maps both
  to \<^verbatim>\<open>ka\<close>; applying the buckets in the order (a), (b), (c) would leave U+0915 mapped to
  U+E015.
\<close>

theorem bucket_order_counterexample:
  "mappingStepFileNameRegexes \<noteq> [InterIndic, ToLatin, LatinASCII]
   \<and> forward_map sample_env sample_dir = [([57365], str ''ka''), ([2325], str ''ka'')]
   \<and> apply_steps sample_env [InterIndic, ToLatin, LatinASCII] (dirEntries sample_env sample_dir)
       = [([2325], [57365]), ([57365], str ''ka'')]"
  by (simp add: steps_value forward_map_def apply_steps_def dirEntries_def js_sort_def
      sortAlphabetical_def matched_def sample_dir_def insert_file_def insert_line_def insert_rule_def
      normalize_def sample_defs trim_def is_white_space_def ends_with_unless_def str_def
      suffix_def Let_def)

text \<open>
  C6, amended. The compiler applies the buckets in the order (c), (b), (a): the rules of
  \<^verbatim>\<open>Latin_ASCII.txt\<close> are inserted first, then those of the script-to-Latin files, then those
  of the files that map into the intermediate script, each bucket in the sorted order of
  the directory.
\<close>

theorem bucket_order:
  "forward_map E dir =
     foldl (\<lambda>m f. insert_file E m (snd f)) []
       (matched LatinASCII (dirEntries E dir) @ matched ToLatin (dirEntries E dir)
        @ matched InterIndic (dirEntries E dir))"
  by (simp add: forward_map_def apply_steps_def steps_value)

theorem bucket_order_witness:
  "forward_map sample_env sample_dir
     = foldl (\<lambda>m f. insert_file sample_env m (snd f)) []
         [(str ''InterIndic_Latin.txt'', [([[57365]], str ''ka'')]),
          (str ''Devanagari_InterIndic.txt'', [([[2325]], [57365])])]"
proof -
  have "matched LatinASCII (dirEntries sample_env sample_dir) = []"
    "matched ToLatin (dirEntries sample_env sample_dir)
       = [(str ''InterIndic_Latin.txt'', [([[57365]], str ''ka'')])]"
    "matched InterIndic (dirEntries sample_env sample_dir)
       = [(str ''Devanagari_InterIndic.txt'', [([[2325]], [57365])])]"
    by (simp_all add: matched_def dirEntries_def js_sort_def sortAlphabetical_def sample_dir_def
        sample_env_def ends_with_unless_def str_def suffix_def)
  with bucket_order[of sample_env sample_dir] show ?thesis by simp
qed

section \<open>Longest match first\<close>

lemma longest_match_None: "longest_match ks rest = None \<longleftrightarrow> (\<forall>k\<in>set ks. \<not> prefix k rest)"
  by (induction ks) (auto split: option.splits if_splits)

lemma longest_match_Some:
  "longest_match ks rest = Some k \<Longrightarrow>
   k \<in> set ks \<and> prefix k rest \<and> (\<forall>k'\<in>set ks. prefix k' rest \<longrightarrow> length k' \<le> length k)"
proof (induction ks arbitrary: k)
  case Nil
  then show ?case by simp
next
  case (Cons a ks)
  show ?case
  proof (cases "longest_match ks rest")
    case None
    with Cons.prems have "prefix a rest" "k = a" by (auto split: if_splits)
    moreover from None have "\<forall>k\<in>set ks. \<not> prefix k rest" by (simp add: longest_match_None)
    ultimately show ?thesis by auto
  next
    case (Some k')
    from Cons.IH[OF Some] have ih: "k' \<in> set ks" "prefix k' rest"
      "\<forall>x\<in>set ks. prefix x rest \<longrightarrow> length x \<le> length k'" by auto
    show ?thesis
    proof (cases "prefix a rest \<and> length k' < length a")
      case True
      with Some Cons.prems have "k = a" by simp
      with True ih show ?thesis by fastforce
    next
      case False
      with Some Cons.prems have "k = k'" by auto
      with False ih show ?thesis by fastforce
    qed
  qed
qed

lemma js_length_append: "js_length (a @ b) = js_length a + js_length b"
  by (simp add: js_length_def)

lemma js_length_ge: "length s \<le> js_length s"
  unfolding js_length_def by (induction s) auto

lemma prefixes_js_length:
  assumes "prefix k rest" "prefix k' rest" "js_length k' \<le> js_length k"
  shows "length k' \<le> length k"
proof (rule ccontr)
  assume "\<not> length k' \<le> length k"
  then have l: "length k < length k'" by simp
  from assms(1,2) have "prefix k k'"
    using l by (metis less_imp_le_nat prefix_length_prefix)
  then obtain z where z: "k' = k @ z" by (auto simp: prefix_def)
  with l have "z \<noteq> []" by auto
  then have "0 < js_length z" using js_length_ge[of z] by (cases z) auto
  with z assms(3) show False by (simp add: js_length_append)
qed

lemma find_sorted_least:
  "sorted (map f xs) \<Longrightarrow> find Q xs = Some k \<Longrightarrow> \<forall>k'\<in>set xs. Q k' \<longrightarrow> f k \<le> f k'"
proof (induction xs)
  case Nil
  then show ?case by simp
next
  case (Cons a xs)
  show ?case
  proof (cases "Q a")
    case True
    with Cons.prems show ?thesis by auto
  next
    case False
    with Cons show ?thesis by auto
  qed
qed

lemma find_SomeD: "find Q xs = Some x \<Longrightarrow> x \<in> set xs \<and> Q x"
  by (induction xs) (auto split: if_splits)

lemma prefix_same_length: "prefix a rest \<Longrightarrow> prefix b rest \<Longrightarrow> length a = length b \<Longrightarrow> a = b"
  by (auto simp: prefix_def append_eq_append_conv)

lemma find_sort_keys: "find (\<lambda>k. prefix k rest) (sort_keys ks) = longest_match ks rest"
proof (cases "find (\<lambda>k. prefix k rest) (sort_keys ks)")
  case None
  then have "\<forall>k\<in>set ks. \<not> prefix k rest"
    by (simp add: find_None_iff sort_keys_def)
  then have "longest_match ks rest = None" by (simp add: longest_match_None)
  with None show ?thesis by simp
next
  case (Some k)
  from find_SomeD[OF Some] have k: "k \<in> set ks" "prefix k rest"
    by (simp_all add: sort_keys_def)
  have "sorted (map (\<lambda>k. - int (js_length k)) (sort_keys ks))"
    by (simp add: sort_keys_def)
  from find_sorted_least[OF this Some]
  have least: "\<forall>k'\<in>set ks. prefix k' rest \<longrightarrow> js_length k' \<le> js_length k"
    by (simp add: sort_keys_def)
  obtain k2 where k2: "longest_match ks rest = Some k2"
    using k by (cases "longest_match ks rest") (auto simp: longest_match_None)
  from longest_match_Some[OF k2]
  have p2: "k2 \<in> set ks" "prefix k2 rest" "\<forall>k'\<in>set ks. prefix k' rest \<longrightarrow> length k' \<le> length k2"
    by auto
  have "length k \<le> length k2" using p2(3) k by simp
  moreover have "length k2 \<le> length k"
    using prefixes_js_length[OF k(2) p2(2)] least p2(1,2) by simp
  ultimately have "k = k2" using prefix_same_length[OF k(2) p2(2)] by simp
  with Some k2 show ?thesis by simp
qed

lemma exec_alternation:
  "re_exec (alternation (sort_keys ks)) seen rest = map_option length (longest_match ks rest)"
  by (simp add: alternation_def find_sort_keys)

lemma root_of_key: "k \<in> fst ` set cm \<Longrightarrow> map_get_or cm k = root_of cm k"
  by (cases "map_of cm k") (auto simp: map_get_or_def root_of_def map_of_eq_None_iff)

lemma replace_transliterate:
  "replace_from (alternation (sort_keys (map fst cm))) (map_get_or cm) seen word
     = transliterate_spec cm word"
proof (induction cm word arbitrary: seen rule: transliterate_spec.induct)
  case (1 cm)
  let ?re = "alternation (sort_keys (map fst cm))"
  have ns: "\<not> re_sticky ?re" by (simp add: alternation_def)
  show ?case
  proof (cases "longest_match (map fst cm) []")
    case None
    then have "re_exec ?re seen [] = None" by (simp add: exec_alternation)
    then show ?thesis using None by (simp add: replace_from_Nil_None)
  next
    case (Some k)
    from longest_match_Some[OF Some] have k: "k \<in> fst ` set cm" "k = []" by auto
    have "re_exec ?re seen [] = Some 0" using Some k by (simp add: exec_alternation)
    then have "replace_from ?re (map_get_or cm) seen [] = map_get_or cm []"
      by (subst replace_from.simps) simp
    then show ?thesis using Some k root_of_key[of "[]" cm] by simp
  qed
next
  case (2 cm c cs)
  let ?re = "alternation (sort_keys (map fst cm))"
  have ns: "\<not> re_sticky ?re" by (simp add: alternation_def)
  show ?case
  proof (cases "longest_match (map fst cm) (c # cs)")
    case None
    then have e: "re_exec ?re seen (c # cs) = None" by (simp add: exec_alternation)
    show ?thesis using None "2.IH"(1)[OF None] by (simp add: replace_from_None[OF e ns])
  next
    case (Some k)
    from longest_match_Some[OF Some] have k: "k \<in> fst ` set cm" "prefix k (c # cs)" by auto
    have e: "re_exec ?re seen (c # cs) = Some (length k)" using Some by (simp add: exec_alternation)
    show ?thesis
    proof (cases "k = []")
      case True
      have "replace_from ?re (map_get_or cm) seen (c # cs)
              = map_get_or cm [] @ c # replace_from ?re (map_get_or cm) (seen @ [c]) cs"
        using e True by (subst replace_from.simps) simp
      then show ?thesis using Some True "2.IH"(2)[OF Some True] k root_of_key[of "[]" cm]
        by simp
    next
      case False
      have len: "0 < length k" "length k \<le> length (c # cs)"
        using False prefix_length_le[OF k(2)] by auto
      have tk: "take (length k) (c # cs) = k" using k(2) by (auto simp: prefix_def)
      from replace_from_Some[OF e len, of "map_get_or cm"]
      show ?thesis using Some False "2.IH"(3)[OF Some False] k root_of_key[of k cm]
        by (simp add: tk)
    qed
  qed
qed

text \<open>
  With the pattern that matches the keys themselves, which escaping the keys would give,
  transliteration is longest-match-first: the pattern matches at a position exactly the
  longest key found there, so of two keys found at the same position, one a proper prefix
  of the other, the shorter is never the one taken; and \<open>convertWord\<close> replaces, left to
  right and without overlap, every such match by the root the map gives it and copies every
  other character.
\<close>

lemma escaped_keys_longest_match:
  "(let re = alternation (sort_keys (map fst cm))
    in re_exec re seen rest = map_option length (longest_match (map fst cm) rest)
       \<and> convertWord word (Transliterate cm re) = Inr (transliterate_spec cm word)
       \<and> (k1 \<in> fst ` set cm \<and> k2 \<in> fst ` set cm \<and> strict_prefix k1 k2 \<and> prefix k2 rest
            \<longrightarrow> re_exec re seen rest \<noteq> Some (length k1)))"
proof -
  let ?re = "alternation (sort_keys (map fst cm))"
  have e: "re_exec ?re seen rest = map_option length (longest_match (map fst cm) rest)"
    by (rule exec_alternation)
  have w: "convertWord word (Transliterate cm ?re) = Inr (transliterate_spec cm word)"
    by (simp add: convertWord_def replaceAll_global replace_transliterate)
  have "re_exec ?re seen rest \<noteq> Some (length k1)"
    if "k1 \<in> fst ` set cm" "k2 \<in> fst ` set cm" "strict_prefix k1 k2" "prefix k2 rest"
  proof
    assume "re_exec ?re seen rest = Some (length k1)"
    with e have "map_option length (longest_match (map fst cm) rest) = Some (length k1)"
      by simp
    then obtain k where k: "longest_match (map fst cm) rest = Some k" "length k = length k1"
      by (cases "longest_match (map fst cm) rest") auto
    from longest_match_Some[OF k(1)] that(2,4) have "length k2 \<le> length k" by auto
    moreover from that(3) have "length k1 < length k2"
      by (metis prefix_length_less)
    ultimately show False using k(2) by simp
  qed
  with e w show ?thesis unfolding Let_def by blast
qed

lemma escaped_keys_longest_match_example:
  "convertWord [102, 233, 101, 233] (Transliterate [([233], str ''e''), ([233, 101], str ''EE'')]
        (alternation (sort_keys [[233], [233, 101]]))) = Inr (str ''fEEe'')"
proof -
  have "transliterate_spec [([233], str ''e''), ([233, 101], str ''EE'')] [102, 233, 101, 233]
          = str ''fEEe''"
    by (simp add: root_of_def str_def)
  with escaped_keys_longest_match[of "[([233], str ''e''), ([233, 101], str ''EE'')]"
      "[]" "[]" "[102, 233, 101, 233]" "[]" "[]"]
  show ?thesis by (simp add: Let_def)
qed

text \<open>
  C4. The claim holds of the pattern that matches the keys themselves, and the code misses
  it: the keys go into the source text of the pattern unescaped (\<^verbatim>\<open>slugify.ts\<close>, line 36),
  so a key with a syntax character is read as a pattern. With the keys \<^verbatim>\<open>a.b\<close> and \<^verbatim>\<open>a\<close>
  the pattern is \<^verbatim>\<open>/(?:a.b|a)/gu\<close>; in the word \<^verbatim>\<open>axb\<close> it matches \<^verbatim>\<open>axb\<close>, which is no key
  and is put back as it is, where replacing the longest key found at each position turns
  the \<^verbatim>\<open>a\<close> into its root and gives \<^verbatim>\<open>yxb\<close>.
\<close>

theorem unescaped_key_read_as_pattern:
  "fst (slugify sample_env Map.empty (str ''axb'')
          \<lparr>charMap = Some (0, [(str ''a.b'', str ''z''), (str ''a'', str ''y'')]), strip = None\<rparr>)
     = Inr (str ''axb'')
   \<and> transliterate_spec [(str ''a.b'', str ''z''), (str ''a'', str ''y'')] (str ''axb'') = str ''yxb''"
  by (simp add: model_defs sample_defs root_of_def)

section \<open>The characters of a slug\<close>

lemma replace_from_chars_aux:
  "(\<forall>m. list_all P m \<longrightarrow> list_all P (f m)) \<Longrightarrow> list_all P rest \<Longrightarrow>
   list_all P (replace_from re f seen rest)"
proof (induction re f seen rest rule: replace_from.induct)
  case (1 re f seen rest)
  note f = "1.prems"(1)
  have fe: "list_all P (f [])" using f by simp
  show ?case
  proof (cases "re_exec re seen rest")
    case None
    show ?thesis
    proof (cases "re_sticky re")
      case True
      with None "1.prems" show ?thesis by (subst replace_from.simps) simp
    next
      case False
      show ?thesis
      proof (cases rest)
        case Nil
        with None False show ?thesis by (subst replace_from.simps) simp
      next
        case (Cons c cs)
        with "1.IH"(1)[OF None False Cons f] "1.prems" None False show ?thesis
          by (subst replace_from.simps) simp
      qed
    qed
  next
    case (Some n)
    show ?thesis
    proof (cases "min n (length rest) = 0")
      case True
      show ?thesis
      proof (cases rest)
        case Nil
        with Some fe show ?thesis by (subst replace_from.simps) simp
      next
        case (Cons c cs)
        with "1.IH"(2)[OF Some True Cons f] "1.prems" Some True fe show ?thesis
          by (subst replace_from.simps) simp
      qed
    next
      case False
      have t: "list_all P (take n rest)" and d: "list_all P (drop n rest)"
        using "1.prems"(2) by (auto simp: list_all_iff dest: in_set_takeD in_set_dropD)
      from t f have ft: "list_all P (f (take n rest))" by simp
      from "1.IH"(3)[OF Some False f d] ft Some False show ?thesis
        by (subst replace_from.simps) (auto simp: min_def split: if_splits)
    qed
  qed
qed

lemma replace_from_chars:
  assumes "\<And>m. list_all P m \<Longrightarrow> list_all P (f m)" and "list_all P rest"
  shows "list_all P (replace_from re f seen rest)"
  using assms by (intro replace_from_chars_aux) auto

lemma strip_non_ascii: "replace_from NON_ASCII (\<lambda>m. []) seen s = filter ascii_word_char s"
proof (induction s arbitrary: seen)
  case Nil
  have "re_exec NON_ASCII seen [] = None" by (simp add: NON_ASCII_def)
  then show ?case by (simp add: replace_from_Nil_None)
next
  case (Cons c cs)
  have ns: "\<not> re_sticky NON_ASCII" by (simp add: NON_ASCII_def)
  show ?case
  proof (cases "ascii_word_char c")
    case True
    then have e: "re_exec NON_ASCII seen (c # cs) = None" by (simp add: NON_ASCII_def)
    show ?thesis using True Cons.IH by (simp add: replace_from_None[OF e ns])
  next
    case False
    then have e: "re_exec NON_ASCII seen (c # cs) = Some 1" by (simp add: NON_ASCII_def)
    from replace_from_Some[OF e, of "\<lambda>m. []"] False Cons.IH show ?thesis by simp
  qed
qed

lemma words_of_chars:
  "list_all P (concat (map snd segs)) \<Longrightarrow> P 45 \<Longrightarrow> list_all (list_all P) (words_of segs)"
  by (induction segs rule: words_of.induct) auto

lemma sequence_err_all:
  "sequence_err xs = Inr vs \<Longrightarrow> list_all (\<lambda>x. \<forall>v. x = Inr v \<longrightarrow> Q v) xs \<Longrightarrow> list_all Q vs"
  by (induction xs arbitrary: vs) (auto split: sum.splits)

lemma map_get_or_chars:
  "list_all (\<lambda>kv. list_all P (snd kv)) cm \<Longrightarrow> list_all P m \<Longrightarrow> list_all P (map_get_or cm m)"
  by (auto simp: map_get_or_def list_all_iff split: option.splits dest!: map_of_SomeD)

lemma convertWord_chars:
  assumes "convertWord w config = Inr w'" "list_all P w"
    and "case config of Transliterate cm re \<Rightarrow> list_all (\<lambda>kv. list_all P (snd kv)) cm
         | NoTransliterate \<Rightarrow> True"
  shows "list_all P w'"
proof (cases config)
  case (Transliterate cm re)
  with assms(1) have w': "w' = replace_from re (map_get_or cm) [] w"
    by (auto simp: convertWord_def replaceAll_def split: if_splits)
  show ?thesis unfolding w'
  proof (rule replace_from_chars)
    show "list_all P w" by (rule assms(2))
    show "list_all P (map_get_or cm m)" if "list_all P m" for m
      using assms(3) Transliterate that by (simp add: map_get_or_chars)
  qed
next
  case NoTransliterate
  with assms show ?thesis by (simp add: convertWord_def)
qed

lemma list_all_tl: "list_all P s \<Longrightarrow> list_all P (tl s)"
  by (cases s) auto

lemma list_all_butlast: "list_all P s \<Longrightarrow> list_all P (butlast s)"
  by (auto simp: list_all_iff dest: in_set_butlastD)

lemma strip_edges_chars: "list_all P s \<Longrightarrow> list_all P (strip_edges s)"
  by (simp add: strip_edges_def Let_def list_all_tl list_all_butlast)

lemma slug_char_iff: "slug_char c \<longleftrightarrow> ascii_word_char c \<and> \<not> ascii_upper c"
  by (auto simp: slug_char_def ascii_word_char_def ascii_letter_def ascii_upper_def)

lemma strip_non_word: "replace_from (NON_WORD E) (\<lambda>m. []) seen s = filter (word_char E) s"
proof (induction "NON_WORD E" "\<lambda>m::jstring. []::jstring" seen s rule: replace_from.induct)
  case (1 seen rest)
  let ?n = "length (takeWhile (\<lambda>c. \<not> word_char E c) rest)"
  have ns: "\<not> re_sticky (NON_WORD E)" by (simp add: NON_WORD_def)
  show ?case
  proof (cases "?n = 0")
    case True
    then have e: "re_exec (NON_WORD E) seen rest = None"
      by (simp add: NON_WORD_def run_length_def)
    show ?thesis
    proof (cases rest)
      case Nil
      with e show ?thesis by (simp add: replace_from_Nil_None)
    next
      case (Cons c cs)
      with True have "word_char E c" by (auto split: if_splits)
      with "1.hyps"(1)[OF e ns Cons] Cons e ns show ?thesis
        by (simp add: replace_from_None)
    qed
  next
    case False
    then have e: "re_exec (NON_WORD E) seen rest = Some ?n"
      by (simp add: NON_WORD_def run_length_def)
    have le: "?n \<le> length rest" by (rule length_takeWhile_le)
    have m: "min ?n (length rest) \<noteq> 0" using False le by simp
    have tk: "take ?n rest = takeWhile (\<lambda>c. \<not> word_char E c) rest"
      by (rule takeWhile_eq_take[symmetric])
    have "filter (word_char E) (take ?n rest) = []"
      unfolding tk by (auto simp: filter_empty_conv dest: set_takeWhileD)
    then have f: "filter (word_char E) rest = filter (word_char E) (drop ?n rest)"
      by (metis append_Nil append_take_drop_id filter_append)
    from replace_from_Some[OF e _ le, of "\<lambda>m. []"] False "1.hyps"(3)[OF e m] f
    show ?thesis by simp
  qed
qed

lemma slug_of_survivors:
  assumes nfc_ascii: "\<And>s. list_all ascii_word_char s \<Longrightarrow> nfc E s = s"
    and x: "survivors E config so input = Inr x"
    and sx: "list_all slug_char x"
    and res: "slugify_core E config so input = Inr r"
  shows "ascii_slug r"
proof -
  from sx have "list_all ascii_word_char x" by (simp add: list_all_iff slug_char_iff)
  then have n: "nfc E x = x" by (rule nfc_ascii)
  have "list_all slug_char (replace_from HYPHEN_RUN (\<lambda>m. [45]) [] x)"
    using sx by (intro replace_from_chars) (simp_all add: slug_char_def)
  then have "list_all slug_char (strip_edges (replace_from HYPHEN_RUN (\<lambda>m. [45]) [] x))"
    by (rule strip_edges_chars)
  with stages_of_survivors[OF x] n
  obtain t where t: "stages E config so input = Inr t" "list_all slug_char t" by simp
  with res have "r = (if t = [] then [45] else t)" by (simp add: slugify_core_def bind_err_def)
  with t(2) show ?thesis by (simp add: ascii_slug_def slug_char_def)
qed

lemma survivors_unfold:
  assumes "survivors E config so input = Inr x"
  obtains ws where
    "sequence_err (map (\<lambda>word. convertWord word config)
        (words_of (segment E (toLowerCase E (nfd E (trim input)))))) = Inr ws"
    "x = replace_from (active_strip E config so) (\<lambda>m. []) [] (join (separator config) ws)"
  using assms
  by (auto simp: survivors_def bind_err_def Let_def replaceAll_def split: sum.splits if_splits)

lemma words_chars:
  assumes part: "\<And>s. concat (map snd (segment E s)) = s"
    and "list_all P (toLowerCase E (nfd E (trim input)))" "P 45"
    and v: "case config of Transliterate cm re \<Rightarrow> list_all (\<lambda>kv. list_all P (snd kv)) cm
            | NoTransliterate \<Rightarrow> True"
    and ws: "sequence_err (map (\<lambda>word. convertWord word config)
        (words_of (segment E (toLowerCase E (nfd E (trim input)))))) = Inr ws"
  shows "list_all P (join (separator config) ws)"
proof -
  let ?words = "words_of (segment E (toLowerCase E (nfd E (trim input))))"
  have w: "list_all (list_all P) ?words"
    using assms(2,3) by (intro words_of_chars) (simp_all add: part)
  have "list_all (\<lambda>y. \<forall>v. y = Inr v \<longrightarrow> list_all P v) (map (\<lambda>word. convertWord word config) ?words)"
    using w convertWord_chars[OF _ _ v] by (auto simp: list_all_iff)
  from sequence_err_all[OF ws this] have "list_all (list_all P) ws" .
  moreover have "list_all P (separator config)"
    using assms(3) by (simp add: separator_def split: transliteration_config.splits)
  ultimately show ?thesis by (rule join_chars)
qed

lemma slugify_core_non_ascii:
  assumes lower: "\<And>s. no_upper (toLowerCase E s)"
    and part: "\<And>s. concat (map snd (segment E s)) = s"
    and nfc_ascii: "\<And>s. list_all ascii_word_char s \<Longrightarrow> nfc E s = s"
    and strip: "active_strip E config so = NON_ASCII"
    and vals: "case config of Transliterate cm re \<Rightarrow> list_all (\<lambda>kv. no_upper (snd kv)) cm
               | NoTransliterate \<Rightarrow> True"
    and res: "slugify_core E config so input = Inr r"
  shows "ascii_slug r"
proof -
  let ?P = "\<lambda>c. \<not> ascii_upper c"
  from res obtain x where x: "survivors E config so input = Inr x"
    by (auto simp: slugify_core_def stages_def bind_err_def split: sum.splits)
  from survivors_unfold[OF x] obtain ws where
    ws: "sequence_err (map (\<lambda>word. convertWord word config)
        (words_of (segment E (toLowerCase E (nfd E (trim input)))))) = Inr ws"
    and xs: "x = replace_from NON_ASCII (\<lambda>m. []) [] (join (separator config) ws)"
    unfolding strip by blast
  have v: "case config of Transliterate cm re \<Rightarrow> list_all (\<lambda>kv. list_all ?P (snd kv)) cm
           | NoTransliterate \<Rightarrow> True"
    using vals by (simp add: no_upper_def split: transliteration_config.splits)
  have "list_all ?P (toLowerCase E (nfd E (trim input)))"
    using lower[of "nfd E (trim input)"] by (simp add: no_upper_def)
  from words_chars[of E ?P, OF part this _ v ws]
  have "list_all ?P (join (separator config) ws)" by (simp add: ascii_upper_def)
  then have "list_all slug_char x"
    unfolding xs strip_non_ascii by (simp add: list_all_iff slug_char_iff)
  from slug_of_survivors[OF nfc_ascii x this res] show ?thesis .
qed

lemma trim_chars: "list_all P s \<Longrightarrow> list_all P (trim s)"
  by (auto simp: trim_def list_all_iff dest!: set_dropWhileD)

lemma slugify_core_ascii_input:
  assumes lower: "\<And>s. no_upper (toLowerCase E s)"
    and part: "\<And>s. concat (map snd (segment E s)) = s"
    and nfc_ascii: "\<And>s. list_all ascii_word_char s \<Longrightarrow> nfc E s = s"
    and nfd_ascii: "\<And>s. list_all is_ascii s \<Longrightarrow> nfd E s = s"
    and lower_ascii: "\<And>s. list_all is_ascii s \<Longrightarrow> list_all is_ascii (toLowerCase E s)"
    and cat: "\<And>c. is_ascii c \<Longrightarrow> word_char E c \<Longrightarrow> ascii_word_char c"
    and inp: "list_all is_ascii input"
    and res: "slugify_core E NoTransliterate None input = Inr r"
  shows "ascii_slug r"
proof -
  let ?P = "\<lambda>c. is_ascii c \<and> \<not> ascii_upper c"
  from res obtain x where x: "survivors E NoTransliterate None input = Inr x"
    by (auto simp: slugify_core_def stages_def bind_err_def split: sum.splits)
  from survivors_unfold[OF x] obtain ws where
    ws: "sequence_err (map (\<lambda>word. convertWord word NoTransliterate)
        (words_of (segment E (toLowerCase E (nfd E (trim input)))))) = Inr ws"
    and xs: "x = replace_from (NON_WORD E) (\<lambda>m. []) [] (join (separator NoTransliterate) ws)"
    by (auto simp: active_strip_def)
  have t: "list_all is_ascii (trim input)" using inp by (rule trim_chars)
  then have "list_all is_ascii (toLowerCase E (nfd E (trim input)))"
    by (simp add: nfd_ascii lower_ascii)
  then have "list_all ?P (toLowerCase E (nfd E (trim input)))"
    using lower[of "nfd E (trim input)"] by (simp add: no_upper_def list_all_iff)
  from words_chars[of E ?P, OF part this _ _ ws]
  have "list_all ?P (join (separator NoTransliterate) ws)"
    by (simp add: is_ascii_def ascii_upper_def)
  then have "list_all slug_char x"
    unfolding xs strip_non_word using cat by (auto simp: list_all_iff slug_char_iff)
  from slug_of_survivors[OF nfc_ascii x this res] show ?thesis .
qed

lemma active_strip_of_config:
  assumes "strip options = Some NON_ASCII \<or> (strip options = None \<and> charMap options \<noteq> None)"
    and "config_of E cache options = (Inr config, cache')"
  shows "active_strip E config (strip options) = NON_ASCII"
  using assms
  by (auto simp: active_strip_def config_of_def split: option.splits prod.splits sum.splits)

lemma config_of_values:
  assumes "config_of E cache options = (Inr config, cache')"
    and "case charMap options of None \<Rightarrow> True | Some (r, cm) \<Rightarrow> list_all (\<lambda>kv. no_upper (snd kv)) cm"
  shows "case config of Transliterate cm re \<Rightarrow> list_all (\<lambda>kv. no_upper (snd kv)) cm
         | NoTransliterate \<Rightarrow> True"
  using assms
  by (auto simp: config_of_def split: option.splits prod.splits sum.splits)

subsection \<open>The sample environment\<close>

lemma sample_lower_no_upper: "no_upper (toLowerCase sample_env s)"
  by (induction s) (auto simp: sample_env_def sample_lower_def no_upper_def ascii_upper_def)

lemma seg_scan_concat: "concat (map snd (seg_scan cs k cur)) = cur @ cs"
  by (induction cs k cur rule: seg_scan.induct) (auto split: option.splits)

lemma sample_segment_concat: "concat (map snd (segment sample_env s)) = s"
  by (cases s) (simp_all add: sample_env_def sample_segment_def seg_scan_concat)

lemma sample_nfc_ascii_aux: "list_all ascii_word_char s \<Longrightarrow> sample_nfc s = s"
  by (induction s rule: sample_nfc.induct) (auto simp: ascii_word_char_def ascii_letter_def)

lemma sample_nfc_ascii: "list_all ascii_word_char s \<Longrightarrow> nfc sample_env s = s"
  by (simp add: sample_env_def sample_nfc_ascii_aux)

lemma sample_nfd_ascii: "list_all is_ascii s \<Longrightarrow> nfd sample_env s = s"
  by (induction s) (auto simp: sample_env_def is_ascii_def)

lemma sample_lower_ascii: "list_all is_ascii s \<Longrightarrow> list_all is_ascii (toLowerCase sample_env s)"
  by (induction s) (auto simp: sample_env_def sample_lower_def is_ascii_def)

lemma sample_categories: "is_ascii c \<Longrightarrow> word_char sample_env c \<Longrightarrow> ascii_word_char c"
  by (auto simp: sample_env_def word_char_def sample_isL_def sample_isM_def sample_isN_def
      ascii_word_char_def is_ascii_def)

text \<open>
  C1, as the claim states it, fails: under the default options the strip pattern is
  \<^verbatim>\<open>NON_WORD\<close>, which keeps every letter, mark and number of any script. The Greek word
  U+03B3 U+03C1 U+03B1 U+03C6 U+03AE U+03C2 is returned unchanged (the repository's tests
  expect the same of a Greek phrase).
\<close>

theorem output_charset_counterexample:
  "fst (slugify sample_env Map.empty [947, 961, 945, 966, 942, 962] no_options)
     = Inr [947, 961, 945, 966, 942, 962]
   \<and> \<not> ascii_slug [947, 961, 945, 966, 942, 962]"
  by (simp add: model_defs sample_defs ascii_slug_def slug_char_def)

text \<open>
  C1, amended. Every string that \<open>slugify\<close> returns matches \<^verbatim>\<open>^[a-z0-9-]+$\<close> in two cases:
  when the strip pattern in force is \<^verbatim>\<open>NON_ASCII\<close> (passed as \<^verbatim>\<open>strip\<close>, or the default when
  a \<^verbatim>\<open>charMap\<close> is given) and no value of the map contains an upper-case ASCII letter; and
  when the input is ASCII and no options are given. The host is assumed to lower-case
  every upper-case ASCII letter away, to cut the text into segments that add up to it, to
  leave ASCII text unchanged under NFC and NFD, to lower-case ASCII text to ASCII text, and
  to count no ASCII character other than a letter or a digit as a letter, mark or number.
\<close>

theorem output_charset:
  assumes "\<And>s. no_upper (toLowerCase E s)"
    and "\<And>s. concat (map snd (segment E s)) = s"
    and "\<And>s. list_all ascii_word_char s \<Longrightarrow> nfc E s = s"
    and "\<And>s. list_all is_ascii s \<Longrightarrow> nfd E s = s"
    and "\<And>s. list_all is_ascii s \<Longrightarrow> list_all is_ascii (toLowerCase E s)"
    and "\<And>c. is_ascii c \<Longrightarrow> word_char E c \<Longrightarrow> ascii_word_char c"
    and "((strip options = Some NON_ASCII \<or> (strip options = None \<and> charMap options \<noteq> None))
          \<and> (case charMap options of None \<Rightarrow> True
              | Some (r, cm) \<Rightarrow> list_all (\<lambda>kv. no_upper (snd kv)) cm))
         \<or> (options = no_options \<and> list_all is_ascii input)"
    and "fst (slugify E cache input options) = Inr r"
  shows "ascii_slug r"
proof -
  from assms(8) obtain config cache' where c: "config_of E cache options = (Inr config, cache')"
    and r: "slugify_core E config (strip options) input = Inr r"
    by (auto simp: slugify_def split: prod.splits sum.splits)
  from assms(7) show ?thesis
  proof
    assume a: "(strip options = Some NON_ASCII \<or> (strip options = None \<and> charMap options \<noteq> None))
          \<and> (case charMap options of None \<Rightarrow> True
              | Some (r, cm) \<Rightarrow> list_all (\<lambda>kv. no_upper (snd kv)) cm)"
    then have s: "strip options = Some NON_ASCII \<or> (strip options = None \<and> charMap options \<noteq> None)"
      and v: "case charMap options of None \<Rightarrow> True
              | Some (r, cm) \<Rightarrow> list_all (\<lambda>kv. no_upper (snd kv)) cm"
      by blast+
    show ?thesis
      by (rule slugify_core_non_ascii[OF assms(1,2,3) active_strip_of_config[OF s c]
            config_of_values[OF c v] r])
  next
    assume b: "options = no_options \<and> list_all is_ascii input"
    with c r have "slugify_core E NoTransliterate None input = Inr r"
      by (simp add: config_of_def no_options_def)
    from slugify_core_ascii_input[OF assms(1,2,3,4,5,6) _ this] b show ?thesis by simp
  qed
qed

theorem output_charset_witness:
  "fst (slugify sample_env Map.empty [68, 233, 106, 224, 32, 86, 117]
          \<lparr>charMap = Some (0, [([224], str ''a'')]), strip = None\<rparr>) = Inr (str ''deja-vu'')
   \<and> ascii_slug (str ''deja-vu'')
   \<and> list_all is_ascii ALL_ASCII
   \<and> fst (slugify sample_env Map.empty ALL_ASCII no_options)
       = Inr (str ''0123456789-abcdefghijklmnopqrstuvwxyz-abcdefghijklmnopqrstuvwxyz'')
   \<and> ascii_slug (str ''0123456789-abcdefghijklmnopqrstuvwxyz-abcdefghijklmnopqrstuvwxyz'')"
proof -
  let ?o = "\<lparr>charMap = Some (0::nat, [([224], str ''a'')]), strip = None\<rparr>"
  have h7: "((strip ?o = Some NON_ASCII \<or> (strip ?o = None \<and> charMap ?o \<noteq> None))
          \<and> (case charMap ?o of None \<Rightarrow> True
              | Some (r, cm) \<Rightarrow> list_all (\<lambda>kv. no_upper (snd kv)) cm))
         \<or> (?o = no_options \<and> list_all is_ascii [68, 233, 106, 224, 32, 86, 117])"
    by (simp add: no_upper_def ascii_upper_def str_def)
  have e: "fst (slugify sample_env Map.empty [68, 233, 106, 224, 32, 86, 117] ?o)
            = Inr (str ''deja-vu'')"
    by (simp add: model_defs sample_defs)
  have a: "list_all is_ascii ALL_ASCII" by (auto simp: ALL_ASCII_def is_ascii_def list_all_iff)
  then have h7': "((strip no_options = Some NON_ASCII
            \<or> (strip no_options = None \<and> charMap no_options \<noteq> None))
          \<and> (case charMap no_options of None \<Rightarrow> True
              | Some (r, cm) \<Rightarrow> list_all (\<lambda>kv. no_upper (snd kv)) cm))
         \<or> (no_options = no_options \<and> list_all is_ascii ALL_ASCII)"
    by simp
  have e': "fst (slugify sample_env Map.empty ALL_ASCII no_options)
            = Inr (str ''0123456789-abcdefghijklmnopqrstuvwxyz-abcdefghijklmnopqrstuvwxyz'')"
    by (simp add: ALL_ASCII_def upto.simps) (simp add: model_defs sample_defs)
  note host = sample_lower_no_upper sample_segment_concat sample_nfc_ascii sample_nfd_ascii
    sample_lower_ascii sample_categories
  from output_charset[of sample_env ?o, OF host h7 e]
    output_charset[of sample_env no_options, OF host h7' e'] e e' a
  show ?thesis by simp
qed

section \<open>Idempotence\<close>

lemma collapse_id:
  "no_double_hyphen s \<Longrightarrow> replace_from HYPHEN_RUN (\<lambda>m. [45]) seen s = s"
proof (induction s arbitrary: seen)
  case Nil
  have "re_exec HYPHEN_RUN seen [] = None" by (simp add: HYPHEN_RUN_def)
  then show ?case by (simp add: replace_from_Nil_None)
next
  case (Cons c cs)
  have ns: "\<not> re_sticky HYPHEN_RUN" by (simp add: HYPHEN_RUN_def)
  from Cons.prems have nd: "\<not> (c = 45 \<and> starts_hyphen cs)" "no_double_hyphen cs"
    by (simp_all add: no_double_Cons)
  have "length (takeWhile (\<lambda>c. c = 45) (c # cs)) < 2"
    using nd(1) by (cases cs) (auto simp: starts_hyphen_def)
  then have e: "re_exec HYPHEN_RUN seen (c # cs) = None"
    by (simp add: HYPHEN_RUN_def Let_def)
  show ?case using Cons.IH[OF nd(2)] by (simp add: replace_from_None[OF e ns])
qed

lemma strip_edges_id: "\<not> starts_hyphen s \<Longrightarrow> \<not> ends_hyphen s \<Longrightarrow> strip_edges s = s"
  by (simp add: strip_edges_def)

subsection \<open>The default pipeline\<close>

lemma trim_id:
  assumes "list_all (\<lambda>c. \<not> is_white_space c) s"
  shows "trim s = s"
proof -
  have d: "dropWhile is_white_space z = z" if "list_all (\<lambda>c. \<not> is_white_space c) z" for z
    using that by (cases z) auto
  have "list_all (\<lambda>c. \<not> is_white_space c) (rev s)" using assms by (simp add: list_all_iff)
  then show ?thesis using assms by (simp add: trim_def d)
qed

lemma words_of_concat:
  "list_all (\<lambda>seg. fst seg \<or> snd seg = [45]) segs
   \<Longrightarrow> concat (words_of segs) = concat (map snd segs)"
  by (induction segs rule: words_of.induct) auto

lemma join_empty: "join [] ws = concat ws"
  by (induction "[] :: jstring" ws rule: join.induct) auto

lemma sequence_err_plain:
  "sequence_err (map (\<lambda>word. convertWord word NoTransliterate) ws) = Inr ws"
  by (induction ws) (simp_all add: convertWord_def)

lemma survivors_default:
  "survivors E NoTransliterate None input
     = Inr (filter (word_char E)
              (concat (words_of (segment E (toLowerCase E (nfd E (trim input)))))))"
  by (simp add: survivors_def active_strip_def separator_def sequence_err_plain bind_err_def
      replaceAll_global strip_non_word join_empty Let_def)

lemma slugify_default:
  "fst (slugify E cache s no_options)
     = Inr (let t = strip_edges (replace_from HYPHEN_RUN (\<lambda>m. [45]) []
                      (nfc E (filter (word_char E)
                         (concat (words_of (segment E (toLowerCase E (nfd E (trim s)))))))))
            in if t = [] then [45] else t)"
  using stages_of_survivors[OF survivors_default, of E s]
  by (simp add: slugify_def config_of_def no_options_def slugify_core_def bind_err_def Let_def)

subsection \<open>Composed text and hyphens\<close>

lemma first_hyphen_eq:
  fixes a :: jstring
  assumes "45 \<notin> set a" "45 \<notin> set a'" "a @ 45 # b = a' @ 45 # b'"
  shows "a = a' \<and> b = b'"
proof -
  have t: "takeWhile (\<lambda>c. c \<noteq> 45) (z @ 45 # y) = z" if "45 \<notin> set z" for z y :: jstring
    using that by (induction z) auto
  from t[OF assms(1), of b] t[OF assms(2), of b'] assms(3) have "a = a'" by simp
  with assms(3) show ?thesis by simp
qed

lemma nfc_split:
  assumes hy: "\<And>a b. nfc E (a @ 45 # b) = nfc E a @ 45 # nfc E b"
    and nh: "\<And>a. 45 \<notin> set a \<Longrightarrow> 45 \<notin> set (nfc E a)"
  shows "nfc E (a @ 45 # b) = a @ 45 # b \<longleftrightarrow> nfc E a = a \<and> nfc E b = b"
proof (induction "length a" arbitrary: a rule: less_induct)
  case less
  show ?case
  proof (cases "45 \<in> set a")
    case False
    from first_hyphen_eq[OF nh[OF False] False, of "nfc E b" b]
    show ?thesis by (auto simp: hy)
  next
    case True
    then obtain a0 a1 where a: "a = a0 @ 45 # a1" "45 \<notin> set a0"
      by (meson split_list_first)
    have l: "length a1 < length a" using a by simp
    have 1: "nfc E (a @ 45 # b) = nfc E a0 @ 45 # nfc E (a1 @ 45 # b)"
      by (simp add: a hy)
    have 2: "nfc E a = nfc E a0 @ 45 # nfc E a1" by (simp add: a hy)
    have "nfc E (a @ 45 # b) = a @ 45 # b
            \<longleftrightarrow> nfc E a0 = a0 \<and> nfc E (a1 @ 45 # b) = a1 @ 45 # b"
      unfolding 1 using first_hyphen_eq[OF nh[OF a(2)] a(2), of "nfc E (a1 @ 45 # b)" "a1 @ 45 # b"]
      by (auto simp: a)
    also have "\<dots> \<longleftrightarrow> nfc E a0 = a0 \<and> nfc E a1 = a1 \<and> nfc E b = b"
      using less[OF l] by simp
    also have "\<dots> \<longleftrightarrow> nfc E a = a \<and> nfc E b = b"
      unfolding 2 using first_hyphen_eq[OF nh[OF a(2)] a(2), of "nfc E a1" a1]
      by (auto simp: a)
    finally show ?thesis .
  qed
qed

lemma nfc_hyphens:
  assumes hy: "\<And>a b. nfc E (a @ 45 # b) = nfc E a @ 45 # nfc E b"
    and nh: "\<And>a. 45 \<notin> set a \<Longrightarrow> 45 \<notin> set (nfc E a)"
    and em: "nfc E [] = []"
    and c: "nfc E (a @ replicate n 45 @ b) = a @ replicate n 45 @ b" and n: "0 < n"
  shows "nfc E a = a \<and> nfc E b = b"
  using c n
proof (induction n arbitrary: a)
  case 0
  then show ?case by simp
next
  case (Suc n)
  have "a @ replicate (Suc n) 45 @ b = a @ 45 # (replicate n 45 @ b)" by simp
  with Suc.prems(1) nfc_split[OF hy nh, of a "replicate n 45 @ b"]
  have s: "nfc E a = a" "nfc E (replicate n 45 @ b) = replicate n 45 @ b" by simp_all
  show ?case
  proof (cases "n = 0")
    case True
    with s show ?thesis by simp
  next
    case False
    from Suc.IH[of "[]"] s(2) False have "nfc E b = b" by simp
    with s(1) show ?thesis by simp
  qed
qed

lemma collapse_composed:
  assumes hy: "\<And>a b. nfc E (a @ 45 # b) = nfc E a @ 45 # nfc E b"
    and nh: "\<And>a. 45 \<notin> set a \<Longrightarrow> 45 \<notin> set (nfc E a)"
    and em: "nfc E [] = []"
  shows "nfc E (pre @ rest) = pre @ rest
         \<Longrightarrow> nfc E (pre @ replace_from HYPHEN_RUN (\<lambda>m. [45]) seen rest)
               = pre @ replace_from HYPHEN_RUN (\<lambda>m. [45]) seen rest"
proof (induction HYPHEN_RUN "\<lambda>m::jstring. [45::nat]" seen rest arbitrary: pre
    rule: replace_from.induct)
  case (1 seen rest)
  have ns: "\<not> re_sticky HYPHEN_RUN" by (simp add: HYPHEN_RUN_def)
  show ?case
  proof (cases "re_exec HYPHEN_RUN seen rest")
    case None
    show ?thesis
    proof (cases rest)
      case Nil
      with None ns "1.prems" show ?thesis by (simp add: replace_from_None)
    next
      case (Cons c cs)
      from "1.prems" have "nfc E ((pre @ [c]) @ cs) = (pre @ [c]) @ cs" by (simp add: Cons)
      from "1.hyps"(1)[OF None ns Cons this] None ns Cons
      show ?thesis by (simp add: replace_from_None)
    qed
  next
    case (Some n)
    from hyphen_exec_Some[OF Some] have n: "2 \<le> n" "n \<le> length rest" by auto
    then have m: "min n (length rest) \<noteq> 0" by simp
    have nn: "n = length (takeWhile (\<lambda>c. c = 45) rest)"
      using Some by (auto simp: HYPHEN_RUN_def Let_def split: if_splits)
    have "take n rest = takeWhile (\<lambda>c. c = 45) rest"
      unfolding nn by (rule takeWhile_eq_take[symmetric])
    also have "\<dots> = replicate n 45"
      unfolding nn by (induction rest) auto
    finally have tk: "take n rest = replicate n 45" .
    have r: "rest = replicate n 45 @ drop n rest"
      using append_take_drop_id[of n rest] tk by simp
    from "1.prems" have "nfc E (pre @ replicate n 45 @ drop n rest)
        = pre @ replicate n 45 @ drop n rest" using r by simp
    from nfc_hyphens[OF hy nh em this] n
    have "nfc E pre = pre" "nfc E (drop n rest) = drop n rest" by simp_all
    then have "nfc E ((pre @ [45]) @ drop n rest) = (pre @ [45]) @ drop n rest"
      using nfc_split[OF hy nh, of pre "drop n rest"] by simp
    from "1.hyps"(3)[OF Some m this]
    show ?thesis using Some n by (simp add: replace_from_Some)
  qed
qed

lemma strip_edges_composed:
  assumes hy: "\<And>a b. nfc E (a @ 45 # b) = nfc E a @ 45 # nfc E b"
    and nh: "\<And>a. 45 \<notin> set a \<Longrightarrow> 45 \<notin> set (nfc E a)"
    and c: "nfc E s = s"
  shows "nfc E (strip_edges s) = strip_edges s"
proof -
  let ?s1 = "if starts_hyphen s then tl s else s"
  have 1: "nfc E ?s1 = ?s1"
  proof (cases "starts_hyphen s")
    case True
    then obtain r where r: "s = [] @ 45 # r" by (cases s) (auto simp: starts_hyphen_def)
    with c nfc_split[OF hy nh, of "[]" r] show ?thesis using True by simp
  next
    case False
    with c show ?thesis by simp
  qed
  show ?thesis
  proof (cases "ends_hyphen ?s1")
    case True
    then have "?s1 = butlast ?s1 @ 45 # []"
      by (metis append_butlast_last_id ends_hyphen_def)
    with 1 nfc_split[OF hy nh, of "butlast ?s1" "[]"] have "nfc E (butlast ?s1) = butlast ?s1"
      by metis
    with True show ?thesis by (simp add: strip_edges_def Let_def)
  next
    case False
    with 1 show ?thesis by (simp add: strip_edges_def Let_def)
  qed
qed

text \<open>
  C3, as the claim states it, fails where the segmenter splits a slug differently from the
  text it came from. In \<^verbatim>\<open>_\<close> U+0301 \<^verbatim>\<open>a\<close> the underscore, the mark and the letter form one
  word-like segment; the underscore is stripped and the slug is U+0301 \<^verbatim>\<open>a\<close>. In that
  slug the mark stands at the start of the text, where it is a segment of its own and not
  word-like: it becomes a hyphen, which is trimmed, and the second pass returns \<^verbatim>\<open>a\<close>.
\<close>

theorem idempotence_counterexample:
  "fst (slugify sample_env Map.empty [95, 769, 97] no_options) = Inr [769, 97]
   \<and> fst (slugify sample_env Map.empty [769, 97] no_options) = Inr [97]
   \<and> fst (slugify sample_env Map.empty [769, 97] no_options)
       \<noteq> fst (slugify sample_env Map.empty [95, 769, 97] no_options)"
  by (simp add: model_defs sample_defs)

text \<open>In the slug of that input the segmenter finds a segment that is neither word-like nor
  a hyphen.\<close>

lemma resegmented_slug:
  "\<not> list_all (\<lambda>seg. fst seg \<or> snd seg = [45])
       (segment sample_env (toLowerCase sample_env (nfd sample_env (trim [769, 97]))))"
  by (simp add: model_defs sample_defs)

lemma slug_invariants:
  assumes part: "\<And>s. concat (map snd (segment E s)) = s"
    and nfc_word: "\<And>z. list_all (word_char E) z \<Longrightarrow> list_all (word_char E) (nfc E z)"
    and lower_idem: "\<And>z. toLowerCase E (toLowerCase E z) = toLowerCase E z"
    and lower_chars: "\<And>z. toLowerCase E z = z \<longleftrightarrow> list_all (\<lambda>c. toLowerCase E [c] = [c]) z"
    and nfc_lower: "\<And>z. toLowerCase E z = z \<Longrightarrow> toLowerCase E (nfc E z) = nfc E z"
    and lower_hyphen: "toLowerCase E [45] = [45]"
    and nfc_idem: "\<And>z. nfc E (nfc E z) = nfc E z"
    and nfc_hyphen: "\<And>a b. nfc E (a @ 45 # b) = nfc E a @ 45 # nfc E b"
    and nfc_empty: "nfc E [] = []"
    and nfc_no_hyphen: "\<And>a. 45 \<notin> set a \<Longrightarrow> 45 \<notin> set (nfc E a)"
    and slug: "fst (slugify E cache s no_options) = Inr t"
  shows "list_all (word_char E) t \<and> toLowerCase E t = t \<and> nfc E t = t"
proof -
  let ?lc = "\<lambda>c. toLowerCase E [c] = [c]"
  let ?u = "toLowerCase E (nfd E (trim s))"
  let ?x = "filter (word_char E) (concat (words_of (segment E ?u)))"
  let ?c = "replace_from HYPHEN_RUN (\<lambda>m. [45]) [] (nfc E ?x)"
  let ?t0 = "strip_edges ?c"
  have lcD: "list_all ?lc z" if "toLowerCase E z = z" for z
    using that by (rule iffD1[OF lower_chars])
  have lcI: "toLowerCase E z = z" if "list_all ?lc z" for z
    using that by (rule iffD2[OF lower_chars])
  from slug have t: "t = (if ?t0 = [] then [45] else ?t0)"
    by (simp add: slugify_default Let_def)
  have wx: "list_all (word_char E) (nfc E ?x)" by (rule nfc_word) (simp add: list_all_iff)
  have "list_all (word_char E) ?c"
    using wx by (intro replace_from_chars) (simp_all add: word_char_def)
  then have w0: "list_all (word_char E) ?t0" by (rule strip_edges_chars)
  have "list_all ?lc ?u" by (rule lcD) (rule lower_idem)
  then have "list_all (list_all ?lc) (words_of (segment E ?u))"
    using lower_hyphen by (intro words_of_chars) (simp_all add: part)
  then have "list_all ?lc ?x" by (auto simp: list_all_iff)
  then have "toLowerCase E ?x = ?x" by (rule lcI)
  then have "toLowerCase E (nfc E ?x) = nfc E ?x" by (rule nfc_lower)
  then have lx: "list_all ?lc (nfc E ?x)" by (rule lcD)
  have "list_all ?lc ?c"
    using lx lower_hyphen by (intro replace_from_chars) simp_all
  then have "list_all ?lc ?t0" by (rule strip_edges_chars)
  then have l0: "toLowerCase E ?t0 = ?t0" by (rule lcI)
  have "nfc E ([] @ nfc E ?x) = [] @ nfc E ?x" by (simp add: nfc_idem)
  from collapse_composed[OF nfc_hyphen nfc_no_hyphen nfc_empty this, of "[]"]
  have cc: "nfc E ?c = ?c" by simp
  have c0: "nfc E ?t0 = ?t0"
    by (rule strip_edges_composed[of E, OF nfc_hyphen nfc_no_hyphen cc])
  have h: "nfc E [45] = [45]" using nfc_hyphen[of "[]" "[]"] by (simp add: nfc_empty)
  show ?thesis
  proof (cases "?t0 = []")
    case True
    with t have "t = [45]" by simp
    then show ?thesis using h lower_hyphen by (simp add: word_char_def)
  next
    case False
    with t have "t = ?t0" by simp
    then show ?thesis using w0 l0 c0 by simp
  qed
qed

text \<open>
  C3, amended. Under the default options, \<open>slugify\<close> returns a slug unchanged whenever
  the segmenter splits that slug, normalised and lower-cased as the second pass reads it,
  into word-like segments and single hyphens. This is proved for every host

  \<^item> whose segments add up to the text;
  \<^item> in which no white space is a letter, a mark, a number or a hyphen;
  \<^item> whose two normal forms turn text made of letters, marks, numbers and hyphens into
    such text, and lower-case text into lower-case text;
  \<^item> whose lower-casing changes nothing when applied a second time, leaves a text
    unchanged exactly when it leaves each of its characters unchanged, and leaves the
    hyphen unchanged;
  \<^item> whose composition undoes decomposition (NFC of NFD is NFC), changes nothing when
    applied a second time, maps the empty string to itself, works on the two sides of a
    hyphen separately and yields no hyphen from text without one.
\<close>

theorem idempotence_when_segments_stay:
  assumes part: "\<And>s. concat (map snd (segment E s)) = s"
    and space: "\<And>c. is_white_space c \<Longrightarrow> \<not> word_char E c"
    and nfc_word: "\<And>z. list_all (word_char E) z \<Longrightarrow> list_all (word_char E) (nfc E z)"
    and nfd_word: "\<And>z. list_all (word_char E) z \<Longrightarrow> list_all (word_char E) (nfd E z)"
    and lower_idem: "\<And>z. toLowerCase E (toLowerCase E z) = toLowerCase E z"
    and lower_chars: "\<And>z. toLowerCase E z = z \<longleftrightarrow> list_all (\<lambda>c. toLowerCase E [c] = [c]) z"
    and nfc_lower: "\<And>z. toLowerCase E z = z \<Longrightarrow> toLowerCase E (nfc E z) = nfc E z"
    and nfd_lower: "\<And>z. toLowerCase E z = z \<Longrightarrow> toLowerCase E (nfd E z) = nfd E z"
    and lower_hyphen: "toLowerCase E [45] = [45]"
    and nfc_nfd: "\<And>z. nfc E (nfd E z) = nfc E z"
    and nfc_idem: "\<And>z. nfc E (nfc E z) = nfc E z"
    and nfc_hyphen: "\<And>a b. nfc E (a @ 45 # b) = nfc E a @ 45 # nfc E b"
    and nfc_empty: "nfc E [] = []"
    and nfc_no_hyphen: "\<And>a. 45 \<notin> set a \<Longrightarrow> 45 \<notin> set (nfc E a)"
    and slug: "fst (slugify E cache s no_options) = Inr t"
    and segs: "list_all (\<lambda>seg. fst seg \<or> snd seg = [45])
                 (segment E (toLowerCase E (nfd E (trim t))))"
  shows "fst (slugify E cache' t no_options) = Inr t"
proof -
  from slug_invariants[OF part nfc_word lower_idem lower_chars nfc_lower lower_hyphen nfc_idem
      nfc_hyphen nfc_empty nfc_no_hyphen slug]
  have w: "list_all (word_char E) t" and l: "toLowerCase E t = t" and c: "nfc E t = t"
    by simp_all
  from slug have "slugify_core E NoTransliterate None s = Inr t"
    by (simp add: slugify_def config_of_def no_options_def)
  from slugify_core_shape[OF this]
  have sh: "no_double_hyphen t" "t \<noteq> []" "starts_hyphen t \<or> ends_hyphen t \<longrightarrow> t = [45]"
    by auto
  have "list_all (\<lambda>c. \<not> is_white_space c) t" using w space by (auto simp: list_all_iff)
  then have tr: "trim t = t" by (rule trim_id)
  have u: "toLowerCase E (nfd E t) = nfd E t" using l by (rule nfd_lower)
  have "concat (words_of (segment E (nfd E t))) = nfd E t"
    using segs words_of_concat[of "segment E (nfd E t)"] by (simp add: tr u part)
  moreover have "filter (word_char E) (nfd E t) = nfd E t"
    using nfd_word[OF w] by (simp add: list_all_iff)
  ultimately have "fst (slugify E cache' t no_options)
      = Inr (let t' = strip_edges (replace_from HYPHEN_RUN (\<lambda>m. [45]) [] t)
             in if t' = [] then [45] else t')"
    by (simp add: slugify_default tr u nfc_nfd c)
  also have "replace_from HYPHEN_RUN (\<lambda>m. [45]) [] t = t" using sh(1) by (rule collapse_id)
  finally have r: "fst (slugify E cache' t no_options)
      = Inr (if strip_edges t = [] then [45] else strip_edges t)" by (simp add: Let_def)
  show ?thesis
  proof (cases "starts_hyphen t \<or> ends_hyphen t")
    case True
    with sh(3) have "t = [45]" by simp
    then show ?thesis using r
      by (simp add: strip_edges_def starts_hyphen_def ends_hyphen_def)
  next
    case False
    then have "strip_edges t = t" by (simp add: strip_edges_id)
    with r sh(2) show ?thesis by simp
  qed
qed

subsection \<open>The sample environment meets the host conditions\<close>

lemma sample_space: "is_white_space c \<Longrightarrow> \<not> word_char sample_env c"
  by (auto simp: is_white_space_def word_char_def sample_env_def sample_isL_def sample_isM_def
      sample_isN_def ascii_letter_def)

lemma sample_nfc_set: "set (sample_nfc z) \<subseteq> set z \<union> {224, 233, 942}"
  by (induction z rule: sample_nfc.induct) auto

lemma sample_nfd_set: "set (sample_nfd z) \<subseteq> set z \<union> {97, 768, 101, 769, 951}"
  by (induction z) auto

lemma sample_nfc_word:
  "list_all (word_char sample_env) z \<Longrightarrow> list_all (word_char sample_env) (nfc sample_env z)"
  using sample_nfc_set[of z]
  by (auto simp: list_all_iff sample_env_def word_char_def sample_isL_def)

lemma sample_nfd_word:
  "list_all (word_char sample_env) z \<Longrightarrow> list_all (word_char sample_env) (nfd sample_env z)"
  using sample_nfd_set[of z]
  by (auto simp: list_all_iff sample_env_def word_char_def sample_isL_def sample_isM_def
      ascii_letter_def)

lemma sample_lower_idem:
  "toLowerCase sample_env (toLowerCase sample_env z) = toLowerCase sample_env z"
  by (simp add: sample_env_def sample_lower_def)

lemma sample_lower_fixed: "sample_lower z = z \<longleftrightarrow> (\<forall>c\<in>set z. \<not> (65 \<le> c \<and> c \<le> 90))"
  by (induction z) (auto simp: sample_lower_def)

lemma sample_lower_chars:
  "toLowerCase sample_env z = z \<longleftrightarrow> list_all (\<lambda>c. toLowerCase sample_env [c] = [c]) z"
  by (simp add: sample_env_def sample_lower_fixed list_all_iff)

lemma sample_nfc_lower:
  "toLowerCase sample_env z = z \<Longrightarrow> toLowerCase sample_env (nfc sample_env z) = nfc sample_env z"
  using sample_nfc_set[of z] by (auto simp: sample_env_def sample_lower_fixed)

lemma sample_nfd_lower:
  "toLowerCase sample_env z = z \<Longrightarrow> toLowerCase sample_env (nfd sample_env z) = nfd sample_env z"
  using sample_nfd_set[of z] by (auto simp: sample_env_def sample_lower_fixed)

lemma sample_nfc_Cons: "a \<noteq> 97 \<Longrightarrow> a \<noteq> 101 \<Longrightarrow> a \<noteq> 951 \<Longrightarrow> sample_nfc (a # w) = a # sample_nfc w"
  by (cases w) auto

lemma sample_nfc_hd:
  "sample_nfc (b # cs) = h # w \<Longrightarrow> h = b \<or> h = 224 \<or> h = 233 \<or> h = 942"
  by (cases cs) (auto split: if_splits)

lemma sample_nfc_idem_aux: "sample_nfc (sample_nfc z) = sample_nfc z"
proof (induction z rule: sample_nfc.induct)
  case (1 a b cs)
  show ?case
  proof (cases "(a = 97 \<and> b = 768) \<or> (a = 101 \<and> b = 769) \<or> (a = 951 \<and> b = 769)")
    case True
    then show ?thesis using 1 by (auto simp: sample_nfc_Cons)
  next
    case False
    then have e: "sample_nfc (a # b # cs) = a # sample_nfc (b # cs)" by auto
    from False 1 have ih: "sample_nfc (sample_nfc (b # cs)) = sample_nfc (b # cs)" by auto
    have "sample_nfc (b # cs) \<noteq> []" by (cases cs) auto
    then obtain h w where hw: "sample_nfc (b # cs) = h # w"
      by (cases "sample_nfc (b # cs)") auto
    from sample_nfc_hd[OF hw] False
    have "\<not> ((a = 97 \<and> h = 768) \<or> (a = 101 \<and> h = 769) \<or> (a = 951 \<and> h = 769))" by auto
    then have "sample_nfc (a # h # w) = a # sample_nfc (h # w)" by auto
    with ih show ?thesis unfolding e hw by simp
  qed
qed simp_all

lemma sample_nfc_idem: "nfc sample_env (nfc sample_env z) = nfc sample_env z"
  by (simp add: sample_env_def sample_nfc_idem_aux)

lemma sample_nfc_hyphen_aux: "sample_nfc (a @ 45 # b) = sample_nfc a @ 45 # sample_nfc b"
  by (induction a rule: sample_nfc.induct) (auto simp: sample_nfc_Cons)

lemma sample_nfc_hyphen:
  "nfc sample_env (a @ 45 # b) = nfc sample_env a @ 45 # nfc sample_env b"
  by (simp add: sample_env_def sample_nfc_hyphen_aux)

lemma sample_nfc_no_hyphen: "45 \<notin> set a \<Longrightarrow> 45 \<notin> set (nfc sample_env a)"
  using sample_nfc_set[of a] by (auto simp: sample_env_def)

lemma sample_nfc_nfd_aux: "sample_nfc (sample_nfd z) = sample_nfc z"
proof (induction z rule: sample_nfc.induct)
  case (1 a b cs)
  show ?case
  proof (cases "a = 224 \<or> a = 233 \<or> a = 942")
    case True
    with 1 have "sample_nfc (sample_nfd (b # cs)) = sample_nfc (b # cs)" by auto
    with True show ?thesis by auto
  next
    case a: False
    show ?thesis
    proof (cases "b = 224 \<or> b = 233 \<or> b = 942")
      case True
      with 1 have "sample_nfc (sample_nfd (b # cs)) = sample_nfc (b # cs)" by auto
      with True a show ?thesis by auto
    next
      case b: False
      show ?thesis
      proof (cases "(a = 97 \<and> b = 768) \<or> (a = 101 \<and> b = 769) \<or> (a = 951 \<and> b = 769)")
        case True
        with 1 have "sample_nfc (sample_nfd cs) = sample_nfc cs" by auto
        with True show ?thesis by auto
      next
        case False
        with 1 have "sample_nfc (sample_nfd (b # cs)) = sample_nfc (b # cs)" by auto
        with False a b show ?thesis by auto
      qed
    qed
  qed
qed auto

lemma sample_nfc_nfd: "nfc sample_env (nfd sample_env z) = nfc sample_env z"
  by (simp add: sample_env_def sample_nfc_nfd_aux)

theorem idempotence_when_segments_stay_witness:
  "fst (slugify sample_env Map.empty [68, 233, 106, 224, 32, 86, 117] no_options)
     = Inr [100, 233, 106, 224, 45, 118, 117]
   \<and> list_all (\<lambda>seg. fst seg \<or> snd seg = [45])
        (segment sample_env (toLowerCase sample_env (nfd sample_env
           (trim [100, 233, 106, 224, 45, 118, 117]))))
   \<and> fst (slugify sample_env Map.empty [100, 233, 106, 224, 45, 118, 117] no_options)
       = Inr [100, 233, 106, 224, 45, 118, 117]"
proof -
  have h1: "fst (slugify sample_env Map.empty [68, 233, 106, 224, 32, 86, 117] no_options)
     = Inr [100, 233, 106, 224, 45, 118, 117]"
    by (simp add: model_defs sample_defs)
  have h2: "list_all (\<lambda>seg. fst seg \<or> snd seg = [45])
        (segment sample_env (toLowerCase sample_env (nfd sample_env
           (trim [100, 233, 106, 224, 45, 118, 117]))))"
    by (simp add: model_defs sample_defs)
  have e: "nfc sample_env [] = []" "toLowerCase sample_env [45] = [45]"
    by (simp_all add: sample_defs)
  from idempotence_when_segments_stay[of sample_env Map.empty _ _ Map.empty,
      OF sample_segment_concat sample_space sample_nfc_word sample_nfd_word sample_lower_idem
         sample_lower_chars sample_nfc_lower sample_nfd_lower e(2) sample_nfc_nfd
         sample_nfc_idem sample_nfc_hyphen e(1) sample_nfc_no_hyphen h1 h2] h1 h2
  show ?thesis by simp
qed

section \<open>Objects\<close>

lemma key_before_trans: "key_before a b \<Longrightarrow> key_before b c \<Longrightarrow> key_before a c"
  by (auto simp: key_before_def split: option.splits)

lemma key_before_not_index: "not_index k \<Longrightarrow> key_before k' k"
  by (auto simp: key_before_def not_index_def split: option.splits)

lemma key_before_from_not_index: "not_index k \<Longrightarrow> key_before k k' \<Longrightarrow> not_index k'"
  by (auto simp: key_before_def not_index_def split: option.splits)

lemma insert_index_set: "set (obj_insert_index n k v ob) = insert (k, v) (set ob)"
  by (induction ob) (auto split: option.splits if_splits)

lemma insert_index_filter:
  "\<not> not_index k \<Longrightarrow>
   filter (\<lambda>e. not_index (fst e)) (obj_insert_index n k v ob) = filter (\<lambda>e. not_index (fst e)) ob"
  by (induction ob) (auto split: option.splits if_splits)

lemma insert_index_sorted:
  assumes "array_index k = Some n"
  shows "sorted_wrt key_before (map fst ob) \<Longrightarrow> \<forall>k'\<in>fst ` set ob. array_index k' \<noteq> Some n \<Longrightarrow>
         sorted_wrt key_before (map fst (obj_insert_index n k v ob))"
proof (induction ob)
  case Nil
  then show ?case by simp
next
  case (Cons e ob)
  obtain k' v' where e: "e = (k', v')" by (cases e)
  from Cons.prems have s: "sorted_wrt key_before (map fst ob)"
    and b: "\<forall>x\<in>fst ` set ob. key_before k' x"
    and ne: "array_index k' \<noteq> Some n" "\<forall>x\<in>fst ` set ob. array_index x \<noteq> Some n"
    by (auto simp: e)
  show ?case
  proof (cases "\<exists>n'. array_index k' = Some n' \<and> n' < n")
    case True
    then have "key_before k' k" using assms by (auto simp: key_before_def)
    with True Cons.IH[OF s ne(2)] b show ?thesis
      by (auto simp: e insert_index_set)
  next
    case False
    then have kk: "key_before k k'" using assms ne(1)
      by (auto simp: key_before_def split: option.splits)
    then have "\<forall>x\<in>fst ` set ob. key_before k x" using b key_before_trans by blast
    with False kk s b show ?thesis
      by (auto simp: e split: option.splits)
  qed
qed

lemma obj_put_new:
  assumes "k \<notin> fst ` set ob" "sorted_wrt key_before (map fst ob)"
    and "index_inj (insert k (fst ` set ob))"
  shows "set (obj_put ob k v) = insert (k, v) (set ob)"
    and "sorted_wrt key_before (map fst (obj_put ob k v))"
    and "filter (\<lambda>e. not_index (fst e)) (obj_put ob k v)
          = filter (\<lambda>e. not_index (fst e)) ob @ (if not_index k then [(k, v)] else [])"
proof -
  from assms(1) have m: "map_of ob k = None" by (simp add: map_of_eq_None_iff)
  show "set (obj_put ob k v) = insert (k, v) (set ob)"
    using m by (auto simp: obj_put_def insert_index_set split: option.splits)
  show "sorted_wrt key_before (map fst (obj_put ob k v))"
  proof (cases "array_index k")
    case None
    then have "not_index k" by (simp add: not_index_def)
    then show ?thesis using m None assms(2)
      by (auto simp: obj_put_def sorted_wrt_append key_before_not_index)
  next
    case (Some n)
    have "\<forall>k'\<in>fst ` set ob. array_index k' \<noteq> Some n"
    proof
      fix k' assume k': "k' \<in> fst ` set ob"
      show "array_index k' \<noteq> Some n"
      proof
        assume "array_index k' = Some n"
        with assms(3) Some k' have "k = k'"
          by (auto simp: index_inj_def not_index_def)
        with k' assms(1) show False by simp
      qed
    qed
    from insert_index_sorted[OF Some assms(2) this] m Some show ?thesis
      by (simp add: obj_put_def)
  qed
  show "filter (\<lambda>e. not_index (fst e)) (obj_put ob k v)
          = filter (\<lambda>e. not_index (fst e)) ob @ (if not_index k then [(k, v)] else [])"
  proof (cases "array_index k")
    case None
    then show ?thesis using m by (simp add: obj_put_def not_index_def)
  next
    case (Some n)
    then have "\<not> not_index k" by (simp add: not_index_def)
    then show ?thesis using m Some by (simp add: obj_put_def insert_index_filter)
  qed
qed

lemma fromEntries_snoc: "fromEntries (xs @ [(k, v)]) = obj_put (fromEntries xs) k v"
  by (simp add: fromEntries_def)

lemma fromEntries_props:
  assumes "index_inj (fst ` set xs)"
  shows "distinct (map fst xs) \<Longrightarrow>
         set (fromEntries xs) = set xs
         \<and> sorted_wrt key_before (map fst (fromEntries xs))
         \<and> filter (\<lambda>e. not_index (fst e)) (fromEntries xs) = filter (\<lambda>e. not_index (fst e)) xs"
  using assms
proof (induction xs rule: rev_induct)
  case Nil
  then show ?case by (simp add: fromEntries_def)
next
  case (snoc x xs)
  obtain k v where x: "x = (k, v)" by (cases x)
  from snoc.prems have d: "distinct (map fst xs)" and nk: "k \<notin> fst ` set xs"
    by (auto simp: x)
  from snoc.prems(2) have inj: "index_inj (insert k (fst ` set xs))" by (simp add: x)
  then have inj': "index_inj (fst ` set xs)" by (auto simp: index_inj_def)
  from snoc.IH[OF d inj'] have ih: "set (fromEntries xs) = set xs"
    "sorted_wrt key_before (map fst (fromEntries xs))"
    "filter (\<lambda>e. not_index (fst e)) (fromEntries xs) = filter (\<lambda>e. not_index (fst e)) xs"
    by auto
  have nk': "k \<notin> fst ` set (fromEntries xs)" using nk ih(1) by simp
  have inj2: "index_inj (insert k (fst ` set (fromEntries xs)))" using inj ih(1) by simp
  from obj_put_new[OF nk' ih(2) inj2, of v] ih show ?case
    by (auto simp: x fromEntries_snoc)
qed

lemma property_order_index_inj:
  "sorted_wrt key_before ks \<Longrightarrow> index_inj (set ks)"
proof (induction ks)
  case Nil
  then show ?case by (simp add: index_inj_def)
next
  case (Cons k ks)
  then have ih: "index_inj (set ks)" and b: "\<forall>x\<in>set ks. key_before k x" by auto
  have "not_index k \<or> k = x" if "x \<in> set ks" "array_index k = array_index x" for x
    using b that by (auto simp: key_before_def not_index_def split: option.splits)
  moreover have "not_index x \<or> x = k" if "x \<in> set ks" "array_index x = array_index k" for x
    using b that by (auto simp: key_before_def not_index_def split: option.splits)
  ultimately show ?case using ih by (auto simp: index_inj_def)
qed

lemma property_order_split:
  "sorted_wrt key_before (map fst L) \<Longrightarrow>
   L = filter (\<lambda>e. \<not> not_index (fst e)) L @ filter (\<lambda>e. not_index (fst e)) L"
proof (induction L)
  case Nil
  then show ?case by simp
next
  case (Cons e L)
  then have ih: "L = filter (\<lambda>e. \<not> not_index (fst e)) L @ filter (\<lambda>e. not_index (fst e)) L"
    and b: "\<forall>x\<in>set L. key_before (fst e) (fst x)" by auto
  show ?case
  proof (cases "not_index (fst e)")
    case True
    with b have "\<forall>x\<in>set L. not_index (fst x)" using key_before_from_not_index by blast
    then have "filter (\<lambda>e. \<not> not_index (fst e)) L = []" "filter (\<lambda>e. not_index (fst e)) L = L"
      by (simp_all add: filter_empty_conv filter_id_conv)
    with True show ?thesis by simp
  next
    case False
    with ih show ?thesis by simp
  qed
qed

lemma index_part_sorted:
  "sorted_wrt key_before (map fst L) \<Longrightarrow>
   sorted_wrt (<) (map index_of (filter (\<lambda>e. \<not> not_index (fst e)) L))"
proof (induction L)
  case Nil
  then show ?case by simp
next
  case (Cons e L)
  then have ih: "sorted_wrt (<) (map index_of (filter (\<lambda>e. \<not> not_index (fst e)) L))"
    and b: "\<forall>x\<in>set L. key_before (fst e) (fst x)" by auto
  have "index_of e < index_of x" if "x \<in> set L" "\<not> not_index (fst x)" "\<not> not_index (fst e)" for x
    using b that by (auto simp: key_before_def not_index_def index_of_def split: option.splits)
  with ih show ?case by auto
qed

lemma strict_sorted_map_unique:
  fixes f :: "'a \<Rightarrow> nat"
  assumes "sorted_wrt (<) (map f A)" "sorted_wrt (<) (map f B)" "set A = set B"
  shows "A = B"
proof -
  have sa: "sorted (map f A)" "distinct (map f A)" and sb: "sorted (map f B)" "distinct (map f B)"
    using assms(1,2) by (simp_all add: strict_sorted_iff)
  have "set (map f A) = set (map f B)" using assms(3) by simp
  from sorted_distinct_set_unique[OF sa sb this] have m: "map f A = map f B" .
  have "inj_on f (set A \<union> set B)" using sa(2) assms(3) by (simp add: distinct_map)
  from map_inj_on[OF m this] show ?thesis .
qed

lemma property_order_unique:
  assumes "set F = set L" "sorted_wrt key_before (map fst F)" "sorted_wrt key_before (map fst L)"
    and "filter (\<lambda>e. not_index (fst e)) F = filter (\<lambda>e. not_index (fst e)) L"
  shows "F = L"
proof -
  have "set (filter (\<lambda>e. \<not> not_index (fst e)) F) = set (filter (\<lambda>e. \<not> not_index (fst e)) L)"
    using assms(1) by simp
  from strict_sorted_map_unique[OF index_part_sorted[OF assms(2)] index_part_sorted[OF assms(3)] this]
  have i: "filter (\<lambda>e. \<not> not_index (fst e)) F = filter (\<lambda>e. \<not> not_index (fst e)) L" .
  have "F = filter (\<lambda>e. \<not> not_index (fst e)) F @ filter (\<lambda>e. not_index (fst e)) F"
    by (rule property_order_split[OF assms(2)])
  also have "\<dots> = filter (\<lambda>e. \<not> not_index (fst e)) L @ filter (\<lambda>e. not_index (fst e)) L"
    by (simp only: i assms(4))
  also have "\<dots> = L"
    by (rule property_order_split[OF assms(3), symmetric])
  finally show ?thesis .
qed

lemma fromEntries_layout:
  assumes "distinct (map fst xs)" "set xs = set L" "sorted_wrt key_before (map fst L)"
    and "filter (\<lambda>e. not_index (fst e)) xs = filter (\<lambda>e. not_index (fst e)) L"
  shows "fromEntries xs = L"
proof -
  have "index_inj (set (map fst L))" by (rule property_order_index_inj[OF assms(3)])
  then have "index_inj (fst ` set xs)" using assms(2) by simp
  from fromEntries_props[OF this assms(1)]
  have p: "set (fromEntries xs) = set xs"
    "sorted_wrt key_before (map fst (fromEntries xs))"
    "filter (\<lambda>e. not_index (fst e)) (fromEntries xs) = filter (\<lambda>e. not_index (fst e)) xs"
    by blast+
  show ?thesis
  proof (rule property_order_unique)
    show "set (fromEntries xs) = set L" using p(1) assms(2) by simp
    show "sorted_wrt key_before (map fst (fromEntries xs))" by (rule p(2))
    show "sorted_wrt key_before (map fst L)" by (rule assms(3))
    show "filter (\<lambda>e. not_index (fst e)) (fromEntries xs) = filter (\<lambda>e. not_index (fst e)) L"
      using p(3) assms(4) by simp
  qed
qed

lemma fromEntries_id:
  "distinct (map fst L) \<Longrightarrow> sorted_wrt key_before (map fst L) \<Longrightarrow> fromEntries L = L"
  by (rule fromEntries_layout[OF _ refl _ refl])

section \<open>Sorting\<close>

lemma insert_by_front: "\<forall>z\<in>set zs. cmp x z \<le> 0 \<Longrightarrow> insert_by cmp x zs = x # zs"
  by (cases zs) auto

lemma js_sort_sorted_id: "sorted_wrt (\<lambda>a b. cmp a b \<le> 0) xs \<Longrightarrow> js_sort cmp xs = xs"
  by (induction xs) (auto simp: js_sort_def insert_by_front)

lemma insert_by_set: "set (insert_by cmp x ys) = insert x (set ys)"
  by (induction ys) auto

lemma js_sort_set: "set (js_sort cmp xs) = set xs"
  by (induction xs) (auto simp: js_sort_def insert_by_set)

lemma insert_by_distinct:
  "distinct (map f (insert_by cmp x ys)) \<longleftrightarrow> f x \<notin> f ` set ys \<and> distinct (map f ys)"
  by (induction ys) (auto simp: insert_by_set)

lemma js_sort_distinct: "distinct (map f xs) \<Longrightarrow> distinct (map f (js_sort cmp xs))"
  by (induction xs) (auto simp: js_sort_def insert_by_distinct js_sort_set[unfolded js_sort_def])

lemma insert_by_sorted:
  assumes total: "\<And>a b. cmp a b \<le> 0 \<or> cmp b a \<le> 0"
    and trans: "\<And>a b c. cmp a b \<le> 0 \<Longrightarrow> cmp b c \<le> 0 \<Longrightarrow> cmp a c \<le> 0"
  shows "sorted_wrt (\<lambda>a b. cmp a b \<le> 0) ys \<Longrightarrow> sorted_wrt (\<lambda>a b. cmp a b \<le> 0) (insert_by cmp x ys)"
proof (induction ys)
  case Nil
  then show ?case by simp
next
  case (Cons y ys)
  show ?case
  proof (cases "cmp x y \<le> 0")
    case True
    with Cons.prems trans show ?thesis by auto
  next
    case False
    with total[of x y] have "cmp y x \<le> 0" by simp
    with False Cons show ?thesis by (auto simp: insert_by_set)
  qed
qed

lemma js_sort_sorted:
  assumes "\<And>a b. cmp a b \<le> 0 \<or> cmp b a \<le> 0"
    and "\<And>a b c. cmp a b \<le> 0 \<Longrightarrow> cmp b c \<le> 0 \<Longrightarrow> cmp a c \<le> 0"
  shows "sorted_wrt (\<lambda>a b. cmp a b \<le> 0) (js_sort cmp xs)"
proof (induction xs)
  case Nil
  show ?case by (simp add: js_sort_def)
next
  case (Cons x xs)
  from insert_by_sorted[of cmp, OF assms Cons] show ?case by (simp add: js_sort_def)
qed

lemma filter_insert_by:
  assumes trans: "\<And>a b c. cmp a b \<le> 0 \<Longrightarrow> cmp b c \<le> 0 \<Longrightarrow> cmp a c \<le> 0"
  shows "sorted_wrt (\<lambda>a b. cmp a b \<le> 0) ys \<Longrightarrow>
         filter P (insert_by cmp x ys)
           = (if P x then insert_by cmp x (filter P ys) else filter P ys)"
proof (induction ys)
  case Nil
  then show ?case by simp
next
  case (Cons y ys)
  show ?case
  proof (cases "cmp x y \<le> 0")
    case True
    with Cons.prems trans have "\<forall>z\<in>set (y # ys). cmp x z \<le> 0" by auto
    then have "\<forall>z\<in>set (filter P (y # ys)). cmp x z \<le> 0" by auto
    then have "insert_by cmp x (filter P (y # ys)) = x # filter P (y # ys)"
      by (rule insert_by_front)
    with True show ?thesis by simp
  next
    case False
    with Cons show ?thesis by auto
  qed
qed

lemma filter_js_sort:
  assumes "\<And>a b. cmp a b \<le> 0 \<or> cmp b a \<le> 0"
    and "\<And>a b c. cmp a b \<le> 0 \<Longrightarrow> cmp b c \<le> 0 \<Longrightarrow> cmp a c \<le> 0"
  shows "filter P (js_sort cmp xs) = js_sort cmp (filter P xs)"
proof (induction xs)
  case Nil
  show ?case by (simp add: js_sort_def)
next
  case (Cons x xs)
  have s: "sorted_wrt (\<lambda>a b. cmp a b \<le> 0) (js_sort cmp xs)"
    by (rule js_sort_sorted[of cmp, OF assms])
  have "filter P (js_sort cmp (x # xs)) = filter P (insert_by cmp x (js_sort cmp xs))"
    by (simp add: js_sort_def)
  also have "\<dots> = (if P x then insert_by cmp x (filter P (js_sort cmp xs))
                     else filter P (js_sort cmp xs))"
    by (rule filter_insert_by[of cmp, OF assms(2) s])
  also have "\<dots> = js_sort cmp (filter P (x # xs))"
    using Cons by (simp add: js_sort_def)
  finally show ?case .
qed

section \<open>Splitting and joining\<close>

lemma split_comma_not_Nil: "split_comma s \<noteq> []"
  by (induction s) (auto split: list.splits)

lemma join_split_comma: "join [44] (split_comma s) = s"
proof (induction s)
  case Nil
  show ?case by simp
next
  case (Cons c cs)
  obtain w ws where w: "split_comma cs = w # ws"
    using split_comma_not_Nil[of cs] by (cases "split_comma cs") auto
  show ?case
  proof (cases "c = 44")
    case True
    with Cons w show ?thesis by simp
  next
    case False
    have "join [44] ((c # w) # ws) = c # join [44] (w # ws)"
      by (cases ws) auto
    with False Cons w show ?thesis by simp
  qed
qed

lemma dedupe_distinct: "distinct xs \<Longrightarrow> dedupe xs = xs"
  by (simp add: dedupe_def distinct_remdups_id)

lemma out_entry_split:
  assumes "alphabetical E (split_comma j)" "distinct (split_comma j)"
  shows "out_entry E (r, split_comma j) = (r, j)"
  using assms
  by (simp add: out_entry_def alphabetical_def js_sort_sorted_id dedupe_distinct join_split_comma)

section \<open>Loading and regrouping a table\<close>

lemma map_set_new: "k \<notin> fst ` set m \<Longrightarrow> map_set m k v = m @ [(k, v)]"
  by (induction m k v rule: map_set.induct) auto

lemma map_set_last: "r \<notin> fst ` set ob \<Longrightarrow> map_set (ob @ [(r, ks)]) r ks' = ob @ [(r, ks')]"
  by (induction ob) auto

lemma map_of_last: "r \<notin> fst ` set ob \<Longrightarrow> map_of (ob @ [(r, ks)]) r = Some ks"
  by (induction ob) auto

lemma load_sources:
  "distinct (map fst m @ ys) \<Longrightarrow>
   foldl (\<lambda>m' y. map_set m' y r) m ys = m @ map (\<lambda>y. (y, r)) ys"
proof (induction ys arbitrary: m)
  case Nil
  then show ?case by simp
next
  case (Cons y ys)
  then have "y \<notin> fst ` set m" by auto
  then have s: "map_set m y r = m @ [(y, r)]" by (rule map_set_new)
  have "distinct (map fst (m @ [(y, r)]) @ ys)" using Cons.prems by auto
  from Cons.IH[OF this] s show ?case by simp
qed

lemma load_roots:
  "distinct (map fst m @ sources tbl) \<Longrightarrow> foldl load_root m tbl = m @ expanded tbl"
proof (induction tbl arbitrary: m)
  case Nil
  then show ?case by (simp add: expanded_def)
next
  case (Cons x tbl)
  let ?m = "m @ map (\<lambda>y. (y, fst x)) (split_comma (snd x))"
  from Cons.prems have d1: "distinct (map fst m @ split_comma (snd x))"
    by (auto simp: sources_def)
  have l: "load_root m x = ?m" unfolding load_root_def by (rule load_sources[OF d1])
  have "map fst ?m = map fst m @ split_comma (snd x)" by (simp add: comp_def)
  then have "distinct (map fst ?m @ sources tbl)" using Cons.prems by (simp add: sources_def)
  from Cons.IH[OF this] l show ?case by (simp add: expanded_def)
qed

lemma load_charMap_expanded:
  assumes "distinct (map fst tbl)" "property_order (map fst tbl)" "distinct (sources tbl)"
  shows "load_charMap tbl = expanded tbl"
proof -
  have "fromEntries tbl = tbl"
    using assms(1,2) by (simp add: fromEntries_id property_order_def)
  then show ?thesis using load_roots[of "[]" tbl] assms(3) by (simp add: load_charMap_def)
qed

lemma obj_put_append:
  assumes "k \<notin> fst ` set ob" "sorted_wrt key_before (map fst ob @ [k])"
  shows "obj_put ob k v = ob @ [(k, v)]"
proof -
  have s: "sorted_wrt key_before (map fst ob)" using assms(2) by (simp add: sorted_wrt_append)
  have "index_inj (set (map fst ob @ [k]))" by (rule property_order_index_inj[OF assms(2)])
  then have i: "index_inj (insert k (fst ` set ob))" by simp
  note p = obj_put_new[OF assms(1) s i, of v]
  show ?thesis
  proof (rule property_order_unique)
    show "set (obj_put ob k v) = set (ob @ [(k, v)])" using p(1) by simp
    show "sorted_wrt key_before (map fst (obj_put ob k v))" by (rule p(2))
    show "sorted_wrt key_before (map fst (ob @ [(k, v)]))" using assms(2) by simp
    show "filter (\<lambda>e. not_index (fst e)) (obj_put ob k v)
            = filter (\<lambda>e. not_index (fst e)) (ob @ [(k, v)])"
      using p(3) by simp
  qed
qed

lemma group_pushes:
  "r \<notin> fst ` set ob \<Longrightarrow>
   group_all (ob @ [(r, ks)]) (map (\<lambda>y. (y, r)) ys @ rest) = group_all (ob @ [(r, ks @ ys)]) rest"
proof (induction ys arbitrary: ks)
  case Nil
  then show ?case by simp
next
  case (Cons y ys)
  have mo: "map_of (ob @ [(r, ks)]) r = Some ks" by (rule map_of_last[OF Cons.prems])
  have "group_step (ob @ [(r, ks)]) (y, r) = Inr (ob @ [(r, ks @ [y])])"
    unfolding group_step_def using mo map_set_last[OF Cons.prems, of ks "ks @ [y]"]
    by (simp del: map_of_append)
  with Cons.IH[OF Cons.prems, of "ks @ [y]"] show ?case by (simp add: bind_err_def)
qed

lemma group_all_expanded:
  "distinct (map fst ob @ map fst tbl) \<Longrightarrow>
   sorted_wrt key_before (map fst ob @ map fst tbl) \<Longrightarrow>
   list_all (\<lambda>x. fst x \<notin> set object_prototype_keys) tbl \<Longrightarrow>
   group_all ob (expanded tbl) = Inr (ob @ grouped tbl)"
proof (induction tbl arbitrary: ob)
  case Nil
  then show ?case by (simp add: expanded_def grouped_def)
next
  case (Cons x tbl)
  let ?r = "fst x"
  obtain y ys where sp: "split_comma (snd x) = y # ys"
    using split_comma_not_Nil[of "snd x"] by (cases "split_comma (snd x)") auto
  from Cons.prems(1) have nr: "?r \<notin> fst ` set ob" by auto
  then have m: "map_of ob ?r = None" by (simp add: map_of_eq_None_iff)
  from Cons.prems(2) have "sorted_wrt key_before (map fst ob @ [?r])"
    by (auto simp: sorted_wrt_append)
  from obj_put_append[OF nr this] have put: "obj_put ob ?r [y] = ob @ [(?r, [y])]" .
  from Cons.prems(3) have np: "?r \<notin> set object_prototype_keys" by simp
  have st: "group_step ob (y, ?r) = Inr (ob @ [(?r, [y])])"
    using m np put by (simp add: group_step_def)
  have e: "expanded (x # tbl) = (y, ?r) # (map (\<lambda>y. (y, ?r)) ys @ expanded tbl)"
    by (simp add: expanded_def sp)
  have "group_all ob (expanded (x # tbl))
          = group_all (ob @ [(?r, [y])]) (map (\<lambda>y. (y, ?r)) ys @ expanded tbl)"
    unfolding e using st by (simp add: bind_err_def)
  also have "\<dots> = group_all (ob @ [(?r, y # ys)]) (expanded tbl)"
    using group_pushes[OF nr, of "[y]" ys "expanded tbl"] by simp
  also have "\<dots> = Inr ((ob @ [(?r, y # ys)]) @ grouped tbl)"
  proof (rule Cons.IH)
    show "distinct (map fst (ob @ [(?r, y # ys)]) @ map fst tbl)" using Cons.prems(1) by simp
    show "sorted_wrt key_before (map fst (ob @ [(?r, y # ys)]) @ map fst tbl)"
      using Cons.prems(2) by simp
    show "list_all (\<lambda>x. fst x \<notin> set object_prototype_keys) tbl" using Cons.prems(3) by simp
  qed
  also have "(ob @ [(?r, y # ys)]) @ grouped tbl = ob @ grouped (x # tbl)"
    by (simp add: grouped_def sp)
  finally show ?case .
qed

lemma sources_distinct_each:
  "distinct (sources tbl) \<Longrightarrow> x \<in> set tbl \<Longrightarrow> distinct (split_comma (snd x))"
  by (induction tbl) (auto simp: sources_def)

lemma out_entries_grouped:
  assumes "list_all (\<lambda>x. alphabetical E (split_comma (snd x)) \<and> distinct (split_comma (snd x))) tbl"
  shows "map (out_entry E) (grouped tbl) = tbl"
  using assms by (induction tbl) (auto simp: grouped_def out_entry_split)

lemma fst_out_entry: "fst (out_entry E e) = fst e"
  by (simp add: out_entry_def)

subsection \<open>The sample comparison\<close>

lemma compare_code_points_total:
  "compare_code_points a b \<le> 0 \<or> compare_code_points b a \<le> 0"
  by (induction a b rule: compare_code_points.induct) auto

lemma compare_code_points_Cons:
  "compare_code_points (a # as) (b # bs) \<le> 0 \<longleftrightarrow> a < b \<or> (a = b \<and> compare_code_points as bs \<le> 0)"
  by auto

lemma compare_code_points_trans:
  "compare_code_points a b \<le> 0 \<Longrightarrow> compare_code_points b c \<le> 0 \<Longrightarrow> compare_code_points a c \<le> 0"
proof (induction a b arbitrary: c rule: compare_code_points.induct)
  case 1
  then show ?case by simp
next
  case (2 b bs)
  then show ?case by (cases c) simp_all
next
  case (3 a as)
  then show ?case by simp
next
  case (4 a as b bs)
  from "4.prems"(2) obtain c1 cs where c: "c = c1 # cs" by (cases c) auto
  from "4.prems"(1) have ab: "a < b \<or> (a = b \<and> compare_code_points as bs \<le> 0)"
    by (simp only: compare_code_points_Cons)
  from "4.prems"(2) have bc: "b < c1 \<or> (b = c1 \<and> compare_code_points bs cs \<le> 0)"
    unfolding c by (simp only: compare_code_points_Cons)
  show ?case
  proof (cases "a < c1")
    case True
    then show ?thesis unfolding c by (simp only: compare_code_points_Cons) simp
  next
    case False
    with ab bc have e: "a = b" "b = c1" and r: "compare_code_points as bs \<le> 0"
      "compare_code_points bs cs \<le> 0"
      by auto
    have "compare_code_points as cs \<le> 0"
      using "4.IH"[OF _ _ r] e by simp
    then show ?thesis unfolding c using e by (simp only: compare_code_points_Cons) simp
  qed
qed

lemmas table_defs = load_charMap_def load_root_def fromEntries_def obj_put_def array_index_def
  is_digit_def digits_value_def out_def group_step_def object_prototype_keys_def js_sort_def
  out_entry_def dedupe_def sortAlphabetical_def sample_env_def bind_err_def str_def
  alphabetical_def property_order_def key_before_def not_index_def sources_def

text \<open>
  Loading a table and inverting the loaded map again yields that table, entry for entry,
  when its roots are listed in the order in which an object lists its keys: the roots
  are distinct; the roots that are array indices come first, in ascending numeric order,
  and the other roots follow in alphabetical order; the sources of every root are in
  alphabetical order; no source occurs twice; and no root is a property name that an
  object literal inherits. Alphabetical order is that of \<^verbatim>\<open>localeCompare\<close>, taken to be a
  total preorder.
\<close>

lemma round_trip_in_object_order:
  assumes total: "\<And>a b. localeCompare E a b \<le> 0 \<or> localeCompare E b a \<le> 0"
    and trans: "\<And>a b c. localeCompare E a b \<le> 0 \<Longrightarrow> localeCompare E b c \<le> 0
                  \<Longrightarrow> localeCompare E a c \<le> 0"
    and roots: "distinct (map fst tbl)" "property_order (map fst tbl)"
      "alphabetical E (filter not_index (map fst tbl))"
      "list_all (\<lambda>x. fst x \<notin> set object_prototype_keys) tbl"
    and srcs: "list_all (\<lambda>x. alphabetical E (split_comma (snd x))) tbl"
      "distinct (sources tbl)"
  shows "out E (load_charMap tbl) = Inr tbl"
proof -
  let ?cmp = "\<lambda>a b. sortAlphabetical E (fst a) (fst b)"
  let ?G = "grouped tbl"
  let ?S = "js_sort ?cmp ?G"
  let ?N = "\<lambda>e. not_index (fst e)"
  have kG: "map fst ?G = map fst tbl" by (simp add: grouped_def comp_def)
  have tot': "\<And>a b. ?cmp a b \<le> 0 \<or> ?cmp b a \<le> 0"
    using total by (simp add: sortAlphabetical_def)
  have tr': "\<And>a b c. ?cmp a b \<le> 0 \<Longrightarrow> ?cmp b c \<le> 0 \<Longrightarrow> ?cmp a c \<le> 0"
    using trans unfolding sortAlphabetical_def by blast
  have each: "list_all (\<lambda>x. alphabetical E (split_comma (snd x)) \<and> distinct (split_comma (snd x))) tbl"
    using srcs sources_distinct_each[OF srcs(2)] by (auto simp: list_all_iff)
  have oG: "map (out_entry E) ?G = tbl" by (rule out_entries_grouped[OF each])
  have l: "load_charMap tbl = expanded tbl"
    by (rule load_charMap_expanded[OF roots(1,2) srcs(2)])
  have g: "group_all [] (expanded tbl) = Inr ?G"
    using group_all_expanded[of "[]" tbl] roots by (simp add: property_order_def)
  have o: "out E (load_charMap tbl) = Inr (fromEntries (map (out_entry E) ?S))"
    unfolding l out_def g by (simp add: bind_err_def)
  have "fromEntries (map (out_entry E) ?S) = tbl"
  proof (rule fromEntries_layout)
    have "distinct (map fst ?S)" using roots(1) kG by (intro js_sort_distinct) simp
    then show "distinct (map fst (map (out_entry E) ?S))"
      by (simp add: comp_def fst_out_entry)
    have "set (map (out_entry E) ?S) = set (map (out_entry E) ?G)"
      by (simp add: js_sort_set)
    then show "set (map (out_entry E) ?S) = set tbl" by (simp only: oG)
    show "sorted_wrt key_before (map fst tbl)" using roots(2) by (simp add: property_order_def)
    have sG: "sorted_wrt (\<lambda>a b. ?cmp a b \<le> 0) (filter ?N ?G)"
    proof -
      have "map fst (filter ?N ?G) = filter not_index (map fst tbl)"
        by (simp add: grouped_def filter_map comp_def)
      moreover have "sorted_wrt (\<lambda>a b. ?cmp a b \<le> 0) (filter ?N ?G)
              = sorted_wrt (\<lambda>a b. sortAlphabetical E a b \<le> 0) (map fst (filter ?N ?G))"
        by (simp add: sorted_wrt_map)
      ultimately show ?thesis using roots(3) by (simp add: alphabetical_def)
    qed
    have "filter ?N (map (out_entry E) ?S) = map (out_entry E) (filter ?N ?S)"
      by (simp add: filter_map comp_def fst_out_entry)
    also have "filter ?N ?S = js_sort ?cmp (filter ?N ?G)"
      by (rule filter_js_sort[of ?cmp, OF tot' tr'])
    also have "\<dots> = filter ?N ?G" by (rule js_sort_sorted_id[OF sG])
    also have "map (out_entry E) (filter ?N ?G) = filter ?N (map (out_entry E) ?G)"
      by (simp add: filter_map comp_def fst_out_entry)
    finally show "filter ?N (map (out_entry E) ?S) = filter ?N tbl" by (simp only: oG)
  qed
  with o show ?thesis by simp
qed

lemma round_trip_in_object_order_example:
  "out sample_env (load_charMap [(str ''2'', [9313]), (str ''10'', [9321]), (str ''a'', [224, 44, 232])])
     = Inr [(str ''2'', [9313]), (str ''10'', [9321]), (str ''a'', [224, 44, 232])]"
proof -
  let ?t = "[(str ''2'', [9313]), (str ''10'', [9321]), (str ''a'', [224, 44, 232])]"
  have c: "localeCompare sample_env = compare_code_points" by (simp add: sample_env_def)
  have h1: "distinct (map fst ?t)" by (simp add: str_def)
  have h2: "property_order (map fst ?t)" by (simp add: table_defs)
  have h3: "alphabetical sample_env (filter not_index (map fst ?t))" by (simp add: table_defs)
  have h4: "list_all (\<lambda>x. fst x \<notin> set object_prototype_keys) ?t" by (simp add: table_defs)
  have h5: "list_all (\<lambda>x. alphabetical sample_env (split_comma (snd x))) ?t"
    by (simp add: table_defs)
  have h6: "distinct (sources ?t)" by (simp add: table_defs)
  show ?thesis
    by (rule round_trip_in_object_order[of sample_env ?t, OF _ _ h1 h2 h3 h4 h5 h6])
       (simp_all only: c compare_code_points_total, erule (1) compare_code_points_trans)
qed

text \<open>
  C5. The claim holds of an inversion that leaves the groups in the order it sorts them
  into, and the code misses it: \<^verbatim>\<open>build.ts\<close> sorts the groups alphabetically by root (line
  92) and then hands them to \<^verbatim>\<open>Object.fromEntries\<close>, and the object lists the roots that are
  array indices first, in numeric order. For the map that sends U+2461 to \<^verbatim>\<open>2\<close> and U+2469
  to \<^verbatim>\<open>10\<close> the groups are sorted into \<^verbatim>\<open>10\<close>, \<^verbatim>\<open>2\<close> and the table that comes out lists
  \<^verbatim>\<open>2\<close>, \<^verbatim>\<open>10\<close>, which is not alphabetical. So the table with the roots \<^verbatim>\<open>10\<close>, \<^verbatim>\<open>2\<close> in
  alphabetical order, its sources sorted and disjoint, does not come back as it was.
\<close>

theorem alphabetical_roots_reordered:
  "js_sort (\<lambda>a b. sortAlphabetical sample_env (fst a) (fst b))
      [(str ''2'', [[9313]]), (str ''10'', [[9321]])]
     = [(str ''10'', [[9321]]), (str ''2'', [[9313]])]
   \<and> out sample_env [([9313], str ''2''), ([9321], str ''10'')]
       = Inr [(str ''2'', [9313]), (str ''10'', [9321])]
   \<and> \<not> alphabetical sample_env (map fst [(str ''2'', [9313::nat]), (str ''10'', [9321])])
   \<and> distinct (map fst sample_table) \<and> alphabetical sample_env (map fst sample_table)
   \<and> list_all (\<lambda>x. alphabetical sample_env (split_comma (snd x))) sample_table
   \<and> distinct (sources sample_table)
   \<and> load_charMap sample_table = [([9313], str ''2''), ([9321], str ''10'')]
   \<and> out sample_env (load_charMap sample_table) = Inr [(str ''2'', [9313]), (str ''10'', [9321])]
   \<and> out sample_env (load_charMap sample_table) \<noteq> Inr sample_table"
  by (simp add: sample_table_def table_defs)

text \<open>The groups are collected in an object literal, so a root that is a property name
  inherited from \<^verbatim>\<open>Object.prototype\<close> makes the inversion throw.\<close>

lemma inherited_root_throws:
  "out sample_env (load_charMap [(str ''constructor'', [9321])]) = Inl TypeError"
  by (simp add: table_defs)

end
